theory Spec2Isabelle
  imports Main "HOL-Library.Sublist"
begin

section \<open>Python string operations used by the tools\<close>

text \<open>
  Text is modelled as \<open>string\<close> (a list of 8-bit characters); the tools are run on ASCII
  LLVM IR, and a text is what Python's text mode hands over, with every line end a single
  newline. \<open>is_space\<close> lists the ASCII characters for which Python's \<open>str.isspace\<close> holds,
  which are the separators of \<open>str.split()\<close> and the characters removed by \<open>str.strip()\<close>;
  \<open>isdigit\<close> is \<open>str.isdigit\<close> on an ASCII character.
\<close>

definition is_space :: "char \<Rightarrow> bool" where
  "is_space c = (c \<in> set [CHR 0x20, CHR 0x09, CHR 0x0A, CHR 0x0B, CHR 0x0C, CHR 0x0D,
                            CHR 0x1C, CHR 0x1D, CHR 0x1E, CHR 0x1F])"

definition isdigit :: "char \<Rightarrow> bool" where
  "isdigit c = (c \<in> set ''0123456789'')"

text \<open>\<open>sub in s\<close>: substring containment.\<close>

fun str_in :: "string \<Rightarrow> string \<Rightarrow> bool" where
  "str_in sub [] = (sub = [])"
| "str_in sub (c # cs) = (prefix sub (c # cs) \<or> str_in sub cs)"

text \<open>\<open>s.strip()\<close>, \<open>s.lstrip(c)\<close> and \<open>s.rstrip(c)\<close> for a one-character argument.\<close>

definition str_strip :: "string \<Rightarrow> string" where
  "str_strip s = dropWhile is_space (rev (dropWhile is_space (rev s)))"

definition str_lstrip :: "char \<Rightarrow> string \<Rightarrow> string" where
  "str_lstrip c s = dropWhile (\<lambda>x. x = c) s"

definition str_rstrip :: "char \<Rightarrow> string \<Rightarrow> string" where
  "str_rstrip c s = rev (dropWhile (\<lambda>x. x = c) (rev s))"

text \<open>\<open>s.split()\<close>: the maximal runs of non-whitespace characters, in order.\<close>

fun split_from :: "string \<Rightarrow> string \<Rightarrow> string list" where
  "split_from cur [] = (if cur = [] then [] else [cur])"
| "split_from cur (c # cs) =
     (if is_space c then (if cur = [] then split_from [] cs else cur # split_from [] cs)
      else split_from (cur @ [c]) cs)"

definition str_split :: "string \<Rightarrow> string list" where
  "str_split s = split_from [] s"

text \<open>\<open>s.split(':')[0]\<close>: the text before the first colon (all of \<open>s\<close> when there is none).\<close>

definition before_colon :: "string \<Rightarrow> string" where
  "before_colon s = takeWhile (\<lambda>x. x \<noteq> CHR '':'') s"

text \<open>\<open>f.readlines()\<close>: the lines of a text, each keeping its terminating newline.\<close>

fun readlines_from :: "string \<Rightarrow> string \<Rightarrow> string list" where
  "readlines_from cur [] = (if cur = [] then [] else [cur])"
| "readlines_from cur (c # cs) =
     (if c = CHR 0x0A then (cur @ [c]) # readlines_from [] cs
      else readlines_from (cur @ [c]) cs)"

definition readlines :: "string \<Rightarrow> string list" where
  "readlines text = readlines_from [] text"

text \<open>The decimal text of a counter, as an f-string prints it.\<close>

function str_of_nat :: "nat \<Rightarrow> string" where
  "str_of_nat n =
     (if n < 10 then [char_of (48 + n)]
      else str_of_nat (n div 10) @ [char_of (48 + n mod 10)])"
  by pat_completeness auto
termination
  by (relation "measure id") auto

datatype error = IndexError | StopIteration | ZeroDivisionError | RecursionError


section \<open>llvm\_protector\_ranked.py: analysis\<close>

record icmp_info =
  result :: string
  ty :: string
  op1 :: string
  op2 :: string
  full_line :: string

definition parse_icmp :: "string \<Rightarrow> icmp_info option" where
  "parse_icmp line =
     (if \<not> str_in ''icmp'' line then None
      else let parts = str_split line in
        if length parts < 7 then None
        else Some \<lparr> result = parts ! 0, ty = parts ! 4,
                    op1 = str_rstrip (CHR '','') (parts ! 5), op2 = parts ! 6,
                    full_line = str_strip line \<rparr>)"

subsection \<open>Block map\<close>

text \<open>
  The dictionary \<open>blocks\<close> is an association list in insertion order; \<open>blocks[k] = v\<close> is
  \<open>AList.update\<close>-like: \<open>dict_set\<close> replaces the value of an existing key in place and
  appends a new key at the end.
\<close>

type_synonym blocks = "(string \<times> string list) list"

fun dict_set :: "'k \<Rightarrow> 'v \<Rightarrow> ('k \<times> 'v) list \<Rightarrow> ('k \<times> 'v) list" where
  "dict_set k v [] = [(k, v)]"
| "dict_set k v ((k', v') # kvs) =
     (if k' = k then (k, v) # kvs else (k', v') # dict_set k v kvs)"

definition dict_get :: "('k \<times> 'v list) list \<Rightarrow> 'k \<Rightarrow> 'v list" where
  "dict_get d k = (case map_of d k of None \<Rightarrow> [] | Some v \<Rightarrow> v)"

text \<open>The test \<open>if current_label:\<close> holds for a label that is neither \<open>None\<close> nor empty.\<close>

fun truthy :: "string option \<Rightarrow> bool" where
  "truthy None = False"
| "truthy (Some l) = (l \<noteq> [])"

definition flush :: "string option \<Rightarrow> string list \<Rightarrow> blocks \<Rightarrow> blocks" where
  "flush current_label current_instructions blocks =
     (case current_label of
        None \<Rightarrow> blocks
      | Some l \<Rightarrow> if l = [] then blocks else dict_set l current_instructions blocks)"

text \<open>The outer test of the loop body: a non-empty stripped line that starts with a digit or
  contains \<open>safe_\<close> or \<open>fault_\<close>.\<close>

definition label_like :: "string \<Rightarrow> bool" where
  "label_like line =
     (let stripped = str_strip line in
      stripped \<noteq> [] \<and>
      (isdigit (hd stripped) \<or> str_in ''safe_'' stripped \<or> str_in ''fault_'' stripped))"

definition is_label :: "string \<Rightarrow> bool" where
  "is_label line = (label_like line \<and> str_in '':'' (str_strip line))"

definition label_of :: "string \<Rightarrow> string" where
  "label_of line = before_colon (str_strip line)"

fun block_loop :: "string list \<Rightarrow> blocks \<Rightarrow> string option \<Rightarrow> string list \<Rightarrow> blocks" where
  "block_loop [] blocks current_label current_instructions =
     flush current_label current_instructions blocks"
| "block_loop (line # rest) blocks current_label current_instructions =
     (if label_like line then
        (if str_in '':'' (str_strip line)
         then block_loop rest (flush current_label current_instructions blocks)
                (Some (label_of line)) []
         else block_loop rest blocks current_label current_instructions)
      else if truthy current_label
        then block_loop rest blocks current_label (current_instructions @ [line])
        else block_loop rest blocks current_label current_instructions)"

definition build_block_map :: "string list \<Rightarrow> blocks" where
  "build_block_map lines = block_loop lines [] None []"

subsection \<open>Return-value resolver\<close>

text \<open>
  \<open>find_return_value\<close> mutates the set \<open>visited\<close> that all recursive calls share, so the
  model returns the set along with the result. \<open>frv_lines\<close> is the loop over the lines of a
  block and \<open>frv_parts\<close> the loop over the tokens of a \<open>br label\<close> line; a result that is
  not \<open>None\<close> returns from the whole call.

  The method calls itself once for every block on a chain of branches, and every call takes a
  frame of the interpreter. \<open>frames\<close> is the number of frames the interpreter still allows:
  a call made when none is left raises \<open>RecursionError\<close>, which nothing catches. The loops
  run inside the frame of their call, so they carry the frames left for the calls they make.
\<close>

definition branch_target :: "string \<Rightarrow> string" where
  "branch_target part = str_rstrip (CHR '','') (str_lstrip (CHR ''%'') part)"

function find_return_value ::
    "nat \<Rightarrow> string \<Rightarrow> blocks \<Rightarrow> string set \<Rightarrow> error + (int option \<times> string set)"
  and frv_lines ::
    "nat \<Rightarrow> string list \<Rightarrow> blocks \<Rightarrow> string set \<Rightarrow> error + (int option \<times> string set)"
  and frv_parts ::
    "nat \<Rightarrow> string list \<Rightarrow> blocks \<Rightarrow> string set \<Rightarrow> error + (int option \<times> string set)"
where
  "find_return_value frames label blocks visited =
     (if frames = 0 then Inl RecursionError
      else if label \<in> visited then Inr (None, visited)
      else frv_lines (frames - 1) (dict_get blocks label) blocks (insert label visited))"
| "frv_lines frames [] blocks visited = Inr (None, visited)"
| "frv_lines frames (line # rest) blocks visited =
     (if str_in ''ret i32 1'' line then Inr (Some 1, visited)
      else if str_in ''ret i32 0'' line then Inr (Some 0, visited)
      else if str_in ''store i32 1'' line then Inr (Some 1, visited)
      else if str_in ''store i32 0'' line then Inr (Some 0, visited)
      else if str_in ''br label'' line then
        (case frv_parts frames (str_split line) blocks visited of
           Inl e \<Rightarrow> Inl e
         | Inr (Some r, visited') \<Rightarrow> Inr (Some r, visited')
         | Inr (None, visited') \<Rightarrow> frv_lines frames rest blocks visited')
      else frv_lines frames rest blocks visited)"
| "frv_parts frames [] blocks visited = Inr (None, visited)"
| "frv_parts frames (part # parts) blocks visited =
     (if prefix ''%'' part then
        (case find_return_value frames (branch_target part) blocks visited of
           Inl e \<Rightarrow> Inl e
         | Inr (Some r, visited') \<Rightarrow> Inr (Some r, visited')
         | Inr (None, visited') \<Rightarrow> frv_parts frames parts blocks visited')
      else frv_parts frames parts blocks visited)"
  by pat_completeness auto

subsection \<open>Criticality score\<close>

text \<open>
  CPython allows 1000 frames unless told otherwise, and the tool does not change that. When
  the tool runs as a script, the frames of the module, of \<open>process_file\<close> and of
  \<open>score_comparison\<close> are in use when the resolver is called.
\<close>

definition recursion_limit :: nat where
  "recursion_limit = 1000"

definition resolver_frames :: nat where
  "resolver_frames = recursion_limit - 3"

text \<open>
  \<open>score_branch\<close> is the body of the \<open>if\<close> in \<open>score_comparison\<close>: \<open>parts[4]\<close> raises
  \<open>IndexError\<close> on a branch line of fewer than five tokens, \<open>parts[6]\<close> is guarded, and an
  empty false label counts as no label. Each target is resolved with a fresh \<open>visited\<close> set,
  the true target first.
\<close>

definition score_branch :: "string list \<Rightarrow> blocks \<Rightarrow> error + int" where
  "score_branch parts blocks =
     (if length parts \<le> 4 then Inl IndexError
      else
        let true_label = branch_target (parts ! 4);
            false_label = (if length parts > 6 then Some (branch_target (parts ! 6)) else None)
        in case find_return_value resolver_frames true_label blocks {} of
             Inl e \<Rightarrow> Inl e
           | Inr (true_ret, visited) \<Rightarrow>
               (case (if truthy false_label
                      then find_return_value resolver_frames (the false_label) blocks {}
                      else Inr (None, {})) of
                  Inl e \<Rightarrow> Inl e
                | Inr (false_ret, visited') \<Rightarrow>
                    Inr (if true_ret \<noteq> None \<and> false_ret \<noteq> None \<and> true_ret \<noteq> false_ret
                         then 100
                         else if true_ret \<noteq> None \<or> false_ret \<noteq> None then 30
                         else 0)))"

definition consumes :: "string \<Rightarrow> string \<Rightarrow> bool" where
  "consumes cmp_result line = (str_in ''br i1'' line \<and> str_in cmp_result line)"

fun score_loop :: "string \<Rightarrow> string list \<Rightarrow> blocks \<Rightarrow> nat list \<Rightarrow> error + int" where
  "score_loop cmp_result lines blocks [] = Inr 0"
| "score_loop cmp_result lines blocks (i # is) =
     (if consumes cmp_result (lines ! i) then score_branch (str_split (lines ! i)) blocks
      else score_loop cmp_result lines blocks is)"

definition score_comparison :: "string \<Rightarrow> string list \<Rightarrow> nat \<Rightarrow> error + int" where
  "score_comparison cmp_result lines line_idx =
     score_loop cmp_result lines (build_block_map lines)
       [line_idx + 1 ..< min (line_idx + 5) (length lines)]"


section \<open>llvm\_protector\_ranked.py and llvm\_protector.py: injection\<close>

record scored_icmp = icmp_info +
  score :: int
  line_num :: nat

text \<open>The first loop of \<open>process_file\<close>: every parsed comparison is scored and recorded, and
  selected when its score reaches the threshold.\<close>

fun scan_loop :: "string list \<Rightarrow> int \<Rightarrow> nat \<Rightarrow> string list \<Rightarrow> scored_icmp list \<Rightarrow>
    scored_icmp list \<Rightarrow> error + (scored_icmp list \<times> scored_icmp list)" where
  "scan_loop lines threshold i [] comparisons comparisons_to_protect =
     Inr (comparisons, comparisons_to_protect)"
| "scan_loop lines threshold i (line # rest) comparisons comparisons_to_protect =
     (case parse_icmp line of
        None \<Rightarrow> scan_loop lines threshold (Suc i) rest comparisons comparisons_to_protect
      | Some info \<Rightarrow>
          (case score_comparison (result info) lines i of
             Inl e \<Rightarrow> Inl e
           | Inr s \<Rightarrow>
               let c = icmp_info.extend info (scored_icmp.fields s i) in
               scan_loop lines threshold (Suc i) rest (comparisons @ [c])
                 (if s \<ge> threshold then comparisons_to_protect @ [c]
                  else comparisons_to_protect)))"

definition scan :: "string list \<Rightarrow> int \<Rightarrow> error + (scored_icmp list \<times> scored_icmp list)" where
  "scan lines threshold = scan_loop lines threshold 0 lines [] []"

record inject_state =
  output_list :: "string list"
  added_abort :: bool
  register_counter :: nat
  block_counter :: nat

definition abort_decl :: string where
  "abort_decl = ''\<newline>declare void @abort() noreturn\<newline>\<newline>''"

definition emit :: "string list \<Rightarrow> inject_state \<Rightarrow> inject_state" where
  "emit chunks st = st\<lparr>output_list := output_list st @ chunks\<rparr>"

definition dup_reg :: "nat \<Rightarrow> string" where
  "dup_reg n = ''%dup_'' @ str_of_nat n"

definition verify_reg :: "nat \<Rightarrow> string" where
  "verify_reg n = ''%verify_'' @ str_of_nat n"

text \<open>The lines emitted at a protected comparison; the two registers take the counter values
  \<open>n\<close> and \<open>n + 1\<close>.\<close>

definition shadow_lines :: "icmp_info \<Rightarrow> string \<Rightarrow> nat \<Rightarrow> string list" where
  "shadow_lines info line n =
     [line,
      ''  '' @ dup_reg n @ '' = icmp eq '' @ ty info @ '' '' @ op1 info @ '', '' @ op2 info
        @ ''\<newline>'',
      ''  '' @ verify_reg (n + 1) @ '' = icmp eq i1 '' @ result info @ '', '' @ dup_reg n
        @ ''\<newline>'']"

text \<open>The lines that replace the consuming branch; \<open>b\<close> is the block counter.\<close>

definition split_lines :: "icmp_info \<Rightarrow> string \<Rightarrow> string \<Rightarrow> string \<Rightarrow> nat \<Rightarrow> string list" where
  "split_lines info vreg true_label false_label b =
     [''  br i1 '' @ vreg @ '', label %safe_'' @ str_of_nat b @ '', label %fault_''
        @ str_of_nat b @ ''\<newline>\<newline>'',
      ''safe_'' @ str_of_nat b @ '':\<newline>'',
      ''  br i1 '' @ result info @ '', label '' @ true_label @ '', label '' @ false_label
        @ ''\<newline>\<newline>'',
      ''fault_'' @ str_of_nat b @ '':\<newline>'',
      ''  call void @abort()\<newline>'',
      ''  unreachable\<newline>\<newline>'']"

text \<open>
  The rewriting loop. \<open>inject_outer\<close> is the outer \<open>while\<close> and \<open>inject_inner\<close> the inner
  one, which copies lines until the branch that consumes the comparison; both advance the same
  position \<open>i\<close>, so the outer loop resumes where the inner one stopped. The two tools differ
  only in how a line is selected: \<open>select i line\<close> is the comparison to protect at line
  \<open>i\<close>, if any.
\<close>

fun inject_outer :: "(nat \<Rightarrow> string \<Rightarrow> error + icmp_info option) \<Rightarrow> nat \<Rightarrow> string list \<Rightarrow>
    inject_state \<Rightarrow> error + inject_state"
  and inject_inner :: "(nat \<Rightarrow> string \<Rightarrow> error + icmp_info option) \<Rightarrow> icmp_info \<Rightarrow> string \<Rightarrow>
    nat \<Rightarrow> string list \<Rightarrow> inject_state \<Rightarrow> error + inject_state"
where
  "inject_outer select i [] st = Inr st"
| "inject_outer select i (line # rest) st =
     (if str_in ''target triple'' line \<and> \<not> added_abort st
      then inject_outer select (Suc i) rest ((emit [line, abort_decl] st)\<lparr>added_abort := True\<rparr>)
      else
        (case select i line of
           Inl e \<Rightarrow> Inl e
         | Inr None \<Rightarrow> inject_outer select (Suc i) rest (emit [line] st)
         | Inr (Some info) \<Rightarrow>
             inject_inner select info (verify_reg (register_counter st + 1)) (Suc i) rest
               ((emit (shadow_lines info line (register_counter st)) st)
                  \<lparr>register_counter := register_counter st + 2\<rparr>)))"
| "inject_inner select info vreg i [] st = Inr st"
| "inject_inner select info vreg i (line # rest) st =
     (if consumes (result info) line then
        (let br_parts = str_split line in
         if length br_parts \<le> 6 then Inl IndexError
         else inject_outer select (Suc i) rest
                ((emit (split_lines info vreg (str_rstrip (CHR '','') (br_parts ! 4))
                          (br_parts ! 6) (block_counter st)) st)
                   \<lparr>block_counter := block_counter st + 1\<rparr>))
      else inject_inner select info vreg (Suc i) rest (emit [line] st))"

definition init_state :: inject_state where
  "init_state = \<lparr>output_list = [], added_abort = False, register_counter = 1000,
                  block_counter = 100\<rparr>"

text \<open>llvm\_protector\_ranked.py: a line is rewritten when its index is the \<open>line_num\<close> of a
  selected comparison; \<open>next\<close> raises \<open>StopIteration\<close> when there is no such record.\<close>

definition select_ranked :: "scored_icmp list \<Rightarrow> nat \<Rightarrow> string \<Rightarrow> error + icmp_info option" where
  "select_ranked comparisons_to_protect i line =
     (if i \<in> set (map line_num comparisons_to_protect)
      then (case find (\<lambda>c. line_num c = i) comparisons_to_protect of
              None \<Rightarrow> Inl StopIteration
            | Some c \<Rightarrow> Inr (Some (icmp_info.truncate c)))
      else Inr None)"

definition process_lines :: "string list \<Rightarrow> int \<Rightarrow> error + inject_state" where
  "process_lines lines threshold =
     (case scan lines threshold of
        Inl e \<Rightarrow> Inl e
      | Inr (comparisons, comparisons_to_protect) \<Rightarrow>
          inject_outer (select_ranked comparisons_to_protect) 0 lines init_state)"

text \<open>\<open>process_file\<close> on the text of the input file; the result is the text written.\<close>

definition process_file :: "string \<Rightarrow> int \<Rightarrow> error + string" where
  "process_file text threshold =
     (case process_lines (readlines text) threshold of
        Inl e \<Rightarrow> Inl e
      | Inr st \<Rightarrow> Inr (concat (output_list st)))"

text \<open>llvm\_protector.py: every line that \<open>parse_icmp\<close> accepts is rewritten.\<close>

definition select_all :: "nat \<Rightarrow> string \<Rightarrow> error + icmp_info option" where
  "select_all i line = Inr (parse_icmp line)"

definition process_lines_unranked :: "string list \<Rightarrow> error + inject_state" where
  "process_lines_unranked lines = inject_outer select_all 0 lines init_state"


section \<open>verify\_protection.py\<close>

text \<open>
  A file is the text that \<open>f.read()\<close> returns. The three patterns that \<open>count_pattern\<close>
  is called with are a literal, or a literal followed by \<open>\d+\<close>; \<open>re.findall\<close> scans
  from left to right and resumes after each match.
\<close>

datatype pattern = Literal string | LiteralDigits string

fun match_at :: "pattern \<Rightarrow> string \<Rightarrow> nat option" where
  "match_at (Literal p) s = (if prefix p s then Some (length p) else None)"
| "match_at (LiteralDigits p) s =
     (if prefix p s \<and> takeWhile isdigit (drop (length p) s) \<noteq> []
      then Some (length p + length (takeWhile isdigit (drop (length p) s)))
      else None)"

function findall_count :: "pattern \<Rightarrow> string \<Rightarrow> nat" where
  "findall_count pat [] = 0"
| "findall_count pat (c # cs) =
     (case match_at pat (c # cs) of
        None \<Rightarrow> findall_count pat cs
      | Some n \<Rightarrow> Suc (findall_count pat (drop (n - 1) cs)))"
  by pat_completeness auto
termination
  by (relation "measure (\<lambda>(pat, s). length s)") auto

definition count_pattern :: "string \<Rightarrow> pattern \<Rightarrow> nat" where
  "count_pattern text pat = findall_count pat text"

definition count_lines :: "string \<Rightarrow> nat" where
  "count_lines text =
     length (filter (\<lambda>l. str_strip l \<noteq> [] \<and> \<not> prefix '';'' (str_strip l)) (readlines text))"

definition verify_abort_present :: "string \<Rightarrow> bool \<times> nat" where
  "verify_abort_present text =
     (let count = count_pattern text (Literal ''call void @abort'') in (count > 0, count))"

definition verify_duplicates_present :: "string \<Rightarrow> bool \<times> nat" where
  "verify_duplicates_present text =
     (let count = count_pattern text (LiteralDigits ''%dup_'') in (count > 0, count))"

definition verify_verification_present :: "string \<Rightarrow> bool \<times> nat" where
  "verify_verification_present text =
     (let count = count_pattern text (LiteralDigits ''%verify_'') in (count > 0, count))"

record results =
  original_size :: nat
  protected_size :: nat
  optimized_size :: nat
  abort_calls_protected :: nat
  abort_calls_optimized :: nat
  duplicate_cmp_protected :: nat
  duplicate_cmp_optimized :: nat
  verification_passed :: bool

definition init_results :: results where
  "init_results = \<lparr>original_size = 0, protected_size = 0, optimized_size = 0,
     abort_calls_protected = 0, abort_calls_optimized = 0, duplicate_cmp_protected = 0,
     duplicate_cmp_optimized = 0, verification_passed = False\<rparr>"

definition verify_protected_ir :: "results \<Rightarrow> string \<Rightarrow> bool \<times> results" where
  "verify_protected_ir res protected_ir =
     (let (has_abort, abort_count) = verify_abort_present protected_ir;
          res = res\<lparr>abort_calls_protected := abort_count\<rparr>
      in if \<not> has_abort then (False, res)
         else
           let (has_dups, dup_count) = verify_duplicates_present protected_ir;
               res = res\<lparr>duplicate_cmp_protected := dup_count\<rparr>
           in if \<not> has_dups then (False, res)
              else
                let (has_verify, verify_count) = verify_verification_present protected_ir
                in if \<not> has_verify then (False, res)
                   else (True, res\<lparr>protected_size := count_lines protected_ir\<rparr>))"

definition verify_optimized_ir :: "results \<Rightarrow> string \<Rightarrow> bool \<times> results" where
  "verify_optimized_ir res optimized_ir =
     (let (has_abort, abort_count) = verify_abort_present optimized_ir;
          res = res\<lparr>abort_calls_optimized := abort_count\<rparr>
      in if \<not> has_abort then (False, res)
         else
           let (has_dups, dup_count) = verify_duplicates_present optimized_ir;
               res = res\<lparr>duplicate_cmp_optimized := dup_count\<rparr>
           in (True, res\<lparr>optimized_size := count_lines optimized_ir\<rparr>))"

text \<open>
  \<open>print_summary\<close> divides by the original size while it formats the size report, before it
  sets \<open>verification_passed\<close>; Python raises \<open>ZeroDivisionError\<close> for a zero divisor. The
  printed text is not modelled.
\<close>

definition print_summary :: "results \<Rightarrow> string \<Rightarrow> error + results" where
  "print_summary res original_ir =
     (let orig_size = count_lines original_ir;
          res = res\<lparr>original_size := orig_size\<rparr>
      in if orig_size = 0 then Inl ZeroDivisionError
         else if abort_calls_optimized res > 0
           then Inr (res\<lparr>verification_passed := True\<rparr>)
           else Inr res)"

text \<open>
  \<open>run_verification\<close>. The external optimizer is the parameter \<open>opt\<close>: \<open>opt text\<close> is the
  text of the file it writes, or \<open>None\<close> when \<open>compile_with_optimization\<close> returns
  \<open>False\<close> (a non-zero exit status or an exception while running it). The result is the
  returned value together with \<open>self.results\<close>.
\<close>

definition run_verification :: "(string \<Rightarrow> string option) \<Rightarrow> string \<Rightarrow> string \<Rightarrow>
    error + (bool \<times> results)" where
  "run_verification opt original_ir protected_ir =
     (case verify_protected_ir init_results protected_ir of
        (False, res) \<Rightarrow> Inr (False, res)
      | (True, res) \<Rightarrow>
          (case opt protected_ir of
             None \<Rightarrow> Inr (False, res)
           | Some optimized_ir \<Rightarrow>
               (case verify_optimized_ir res optimized_ir of
                  (False, res) \<Rightarrow> Inr (False, res)
                | (True, res) \<Rightarrow>
                    (case print_summary res original_ir of
                       Inl e \<Rightarrow> Inl e
                     | Inr res \<Rightarrow> Inr (verification_passed res, res)))))"


section \<open>Notions used to state the properties\<close>

text \<open>A line on which the resolver stops with a constant.\<close>

definition const_line :: "string \<Rightarrow> bool" where
  "const_line line = (str_in ''ret i32 1'' line \<or> str_in ''ret i32 0'' line \<or>
                      str_in ''store i32 1'' line \<or> str_in ''store i32 0'' line)"

text \<open>The labels the resolver can be sent to from \<open>label\<close>: the targets named on the
  \<open>br label\<close> lines of a block already reached.\<close>

inductive_set reachable :: "blocks \<Rightarrow> string \<Rightarrow> string set"
  for blocks :: blocks and label :: string where
  start: "label \<in> reachable blocks label"
| step: "l \<in> reachable blocks label \<Longrightarrow> line \<in> set (dict_get blocks l) \<Longrightarrow>
         str_in ''br label'' line \<Longrightarrow> part \<in> set (str_split line) \<Longrightarrow> prefix ''%'' part \<Longrightarrow>
         branch_target part \<in> reachable blocks label"

definition cycle_example :: "string list" where
  "cycle_example =
     [''1:\<newline>'', ''  br label %2\<newline>'', ''2:\<newline>'', ''  br label %1\<newline>'']"

text \<open>A decision gate, and a comparison whose two branches return the same constant.\<close>

definition gate_example :: "string list" where
  "gate_example =
     [''  %c = icmp eq i32 %a, %b\<newline>'',
      ''  br i1 %c, label %1, label %2\<newline>'',
      ''1:\<newline>'',
      ''  ret i32 1\<newline>'',
      ''2:\<newline>'',
      ''  ret i32 0\<newline>'']"


text \<open>A function header, a numeric label with its block, and a synthetic label.\<close>

definition block_example_pre :: "string list" where
  "block_example_pre = [''define i32 @check(i32 %0) {\<newline>'', ''  %2 = icmp eq i32 %0, 7\<newline>'']"

definition block_example_body :: "string list" where
  "block_example_body = [''  %3 = add nsw i32 %0, 1\<newline>'', ''  ret i32 1\<newline>'']"

definition block_example_rest :: "string list" where
  "block_example_rest = [''safe_100:\<newline>'', ''  ret i32 0\<newline>'']"

text \<open>Two comparisons of which the first has no consuming branch, with their records.\<close>

definition swallow_example :: "string list" where
  "swallow_example =
    [''  %a = icmp eq i32 %x, 1\<newline>'',
     ''  %b = icmp eq i32 %y, 2\<newline>'',
     ''  br i1 %b, label %1, label %2\<newline>'',
     ''1:\<newline>'',
     ''  ret i32 1\<newline>'',
     ''2:\<newline>'',
     ''  ret i32 0\<newline>'']"

definition swallow_a :: scored_icmp where
  "swallow_a = \<lparr>result = ''%a'', ty = ''i32'', op1 = ''%x'', op2 = ''1'',
     full_line = ''%a = icmp eq i32 %x, 1'', score = 0, line_num = 0\<rparr>"

definition swallow_b :: scored_icmp where
  "swallow_b = \<lparr>result = ''%b'', ty = ''i32'', op1 = ''%y'', op2 = ''2'',
     full_line = ''%b = icmp eq i32 %y, 2'', score = 100, line_num = 1\<rparr>"

text \<open>The comparisons of a list whose score reaches the threshold.\<close>

definition select_by :: "int \<Rightarrow> scored_icmp list \<Rightarrow> scored_icmp list" where
  "select_by threshold new = filter (\<lambda>c. threshold \<le> score c) new"

text \<open>Two decision gates, the second between the first and its branch; and a branch line
  that has lost its targets.\<close>

definition nested_example :: "string list" where
  "nested_example =
    [''  %a = icmp eq i32 %x, 1\<newline>'',
     ''  %b = icmp eq i32 %y, 2\<newline>'',
     ''  br i1 %a, label %1, label %2\<newline>'',
     ''  br i1 %b, label %1, label %2\<newline>'',
     ''1:\<newline>'',
     ''  ret i32 1\<newline>'',
     ''2:\<newline>'',
     ''  ret i32 0\<newline>'']"

definition short_branch_example :: "string list" where
  "short_branch_example =
    [''  %c = icmp eq i32 %a, %b\<newline>'',
     ''  br i1 %c\<newline>'']"

text \<open>The gate example as a file, with and without a target triple, and the states the
  ranked tool ends in.\<close>

definition triple_text :: string where
  "triple_text = ''target triple = x86_64-pc-linux-gnu\<newline>'' @ concat gate_example"

definition triple_out :: inject_state where
  "triple_out = \<lparr>output_list =
     [''target triple = x86_64-pc-linux-gnu\<newline>'',
      ''\<newline>declare void @abort() noreturn\<newline>\<newline>'',
      ''  %c = icmp eq i32 %a, %b\<newline>'',
      ''  %dup_1000 = icmp eq i32 %a, %b\<newline>'',
      ''  %verify_1001 = icmp eq i1 %c, %dup_1000\<newline>'',
      ''  br i1 %verify_1001, label %safe_100, label %fault_100\<newline>\<newline>'',
      ''safe_100:\<newline>'',
      ''  br i1 %c, label %1, label %2\<newline>\<newline>'',
      ''fault_100:\<newline>'',
      ''  call void @abort()\<newline>'',
      ''  unreachable\<newline>\<newline>'',
      ''1:\<newline>'',
      ''  ret i32 1\<newline>'',
      ''2:\<newline>'',
      ''  ret i32 0\<newline>''],
     added_abort = True, register_counter = 1002, block_counter = 101\<rparr>"

definition gate_out :: inject_state where
  "gate_out = \<lparr>output_list =
     [''  %c = icmp eq i32 %a, %b\<newline>'',
      ''  %dup_1000 = icmp eq i32 %a, %b\<newline>'',
      ''  %verify_1001 = icmp eq i1 %c, %dup_1000\<newline>'',
      ''  br i1 %verify_1001, label %safe_100, label %fault_100\<newline>\<newline>'',
      ''safe_100:\<newline>'',
      ''  br i1 %c, label %1, label %2\<newline>\<newline>'',
      ''fault_100:\<newline>'',
      ''  call void @abort()\<newline>'',
      ''  unreachable\<newline>\<newline>'',
      ''1:\<newline>'',
      ''  ret i32 1\<newline>'',
      ''2:\<newline>'',
      ''  ret i32 0\<newline>''],
     added_abort = False, register_counter = 1002, block_counter = 101\<rparr>"

text \<open>A protected unit, an optimizer that changes nothing, and the three counts of the
  verifier.\<close>

definition protected_example :: string where
  "protected_example = concat (output_list gate_out)"

definition identity_opt :: "string \<Rightarrow> string option" where
  "identity_opt src = Some src"

definition abort_calls :: "string \<Rightarrow> nat" where
  "abort_calls src = count_pattern src (Literal ''call void @abort'')"

definition dup_ids :: "string \<Rightarrow> nat" where
  "dup_ids src = count_pattern src (LiteralDigits ''%dup_'')"

definition verify_ids :: "string \<Rightarrow> nat" where
  "verify_ids src = count_pattern src (LiteralDigits ''%verify_'')"

text \<open>The lines that hold no conditional branch.\<close>

definition plain_lines :: "string list \<Rightarrow> string list" where
  "plain_lines ls = filter (\<lambda>l. \<not> str_in ''br i1'' l) ls"

text \<open>The block labels not yet visited.\<close>

definition unvisited :: "blocks \<Rightarrow> string set \<Rightarrow> nat" where
  "unvisited blocks visited = card (fst ` set blocks - visited)"

text \<open>A ring of \<open>n\<close> blocks: block \<open>k\<close> has the label of \<open>k + 1\<close> ones and holds one
  branch, to the next block, the last one to the first.\<close>

definition ones :: "nat \<Rightarrow> string" where
  "ones k = replicate (Suc k) (CHR ''1'')"

definition hop :: "nat \<Rightarrow> string" where
  "hop k = ''  br label %'' @ ones k @ ''\<newline>''"

definition ring :: "nat \<Rightarrow> blocks" where
  "ring n = map (\<lambda>k. (ones k, [hop (Suc k mod n)])) [0..<n]"

text \<open>The lines of the ring, and a unit whose comparison branches into a ring of 1000
  blocks.\<close>

definition ring_lines :: "nat \<Rightarrow> string list" where
  "ring_lines n = concat (map (\<lambda>k. [ones k @ '':\<newline>'', hop (Suc k mod n)]) [0..<n])"

definition deep_example :: "string list" where
  "deep_example =
     [''  %c = icmp eq i32 %a, %b\<newline>'',
      ''  br i1 %c, label %1, label %1\<newline>''] @ ring_lines 1000"


text \<open>A decision gate on \<open>%c\<close> behind a branch on \<open>%cond\<close>.\<close>

definition collision_example :: "string list" where
  "collision_example =
     [''  %c = icmp eq i32 %a, %b\<newline>'',
      ''  br i1 %cond, label %5, label %5\<newline>'',
      ''5:\<newline>'',
      ''  br i1 %c, label %1, label %2\<newline>'',
      ''1:\<newline>'',
      ''  ret i32 1\<newline>'',
      ''2:\<newline>'',
      ''  ret i32 0\<newline>'']"

text \<open>
  The measure of the recursion: the frames left, then the lines and tokens still to scan. A
  call of \<open>find_return_value\<close> ranks under the loop that makes it and over the loop it
  starts.
\<close>

fun frv_rank :: "(nat \<times> string \<times> blocks \<times> string set) + (nat \<times> string list \<times> blocks \<times> string set)
    + (nat \<times> string list \<times> blocks \<times> string set) \<Rightarrow> nat \<times> nat \<times> nat" where
  "frv_rank (Inl (frames, label, blocks, visited)) = (2 * frames, 0, 0)"
| "frv_rank (Inr (Inl (frames, ls, blocks, visited))) = (2 * frames + 1, 2 * length ls, 0)"
| "frv_rank (Inr (Inr (frames, ps, blocks, visited))) = (2 * frames + 1, 1, length ps)"

section \<open>Termination of the resolver\<close>

lemma find_return_value_total: "All find_return_value_frv_lines_frv_parts_dom"
  by (relation "inv_image (less_than <*lex*> less_than <*lex*> less_than) frv_rank")
     (auto intro: wf_inv_image wf_lex_prod wf_less_than)

termination find_return_value
  by (rule find_return_value_total)

section \<open>Substring containment\<close>

lemma str_in_prefix: "prefix sub s \<Longrightarrow> str_in sub s"
  by (cases s) auto

lemma str_in_append: "str_in sub (pre @ sub @ post)"
  by (induction pre) (auto simp: str_in_prefix)

lemma str_in_iff: "str_in sub s \<longleftrightarrow> (\<exists>pre post. s = pre @ sub @ post)"
proof
  show "str_in sub s \<Longrightarrow> \<exists>pre post. s = pre @ sub @ post"
  proof (induction s)
    case Nil
    then show ?case by simp
  next
    case (Cons c cs)
    then consider "prefix sub (c # cs)" | "str_in sub cs" by auto
    then show ?case
    proof cases
      case 1
      then obtain post where "c # cs = [] @ sub @ post" by (auto simp: prefix_def)
      then show ?thesis by blast
    next
      case 2
      with Cons obtain pre post where "cs = pre @ sub @ post" by auto
      then have "c # cs = (c # pre) @ sub @ post" by simp
      then show ?thesis by blast
    qed
  qed
next
  show "\<exists>pre post. s = pre @ sub @ post \<Longrightarrow> str_in sub s"
    using str_in_append by auto
qed


section \<open>The return-value resolver\<close>

lemma unvisited_mono: "v \<subseteq> v' \<Longrightarrow> unvisited blocks v' \<le> unvisited blocks v"
  unfolding unvisited_def by (intro card_mono) auto

lemma unvisited_insert:
  "label \<notin> visited \<Longrightarrow> map_of blocks label = Some ls \<Longrightarrow>
     unvisited blocks (insert label visited) < unvisited blocks visited"
proof -
  assume a: "label \<notin> visited" "map_of blocks label = Some ls"
  then have "(label, ls) \<in> set blocks" by (simp add: map_of_SomeD)
  then have "label \<in> fst ` set blocks" by force
  with a(1) have "fst ` set blocks - insert label visited \<subset> fst ` set blocks - visited"
    by auto
  then show ?thesis unfolding unvisited_def by (intro psubset_card_mono) auto
qed

lemma dict_get_absent: "map_of blocks label = None \<Longrightarrow> dict_get blocks label = []"
  by (simp add: dict_get_def)

lemma reachable_trans:
  assumes "c \<in> reachable blocks b" "b \<in> reachable blocks a"
  shows "c \<in> reachable blocks a"
  using assms by (induction rule: reachable.induct) (auto intro: reachable.step)

lemma frv_lines_const:
  "const_line line \<Longrightarrow> \<exists>r. frv_lines frames (line # rest) blocks visited = Inr (Some r, visited)"
  by (auto simp: const_line_def)

text \<open>The set of visited labels only grows.\<close>

lemma frv_visited_mono:
  "find_return_value frames label blocks visited = Inr (r, visited') \<Longrightarrow> visited \<subseteq> visited'"
  "frv_lines frames ls blocks visited = Inr (r, visited') \<Longrightarrow> visited \<subseteq> visited'"
  "frv_parts frames ps blocks visited = Inr (r, visited') \<Longrightarrow> visited \<subseteq> visited'"
proof (induction frames label blocks visited and frames ls blocks visited
         and frames ps blocks visited
       arbitrary: r visited' and r visited' and r visited'
       rule: find_return_value_frv_lines_frv_parts.induct)
  case (1 frames label blocks visited)
  have f: "frames \<noteq> 0" using 1(2) by (auto split: if_splits)
  show ?case
  proof (cases "label \<in> visited")
    case True
    with f 1(2) show ?thesis by simp
  next
    case False
    with f 1(2) have "frv_lines (frames - 1) (dict_get blocks label) blocks
        (insert label visited) = Inr (r, visited')" by simp
    from 1(1)[OF f False this] show ?thesis by auto
  qed
next
  case (2 frames blocks visited)
  then show ?case by simp
next
  case (3 frames line rest blocks visited)
  show ?case
  proof (cases "const_line line")
    case True
    then show ?thesis using frv_lines_const[OF True, of frames rest blocks visited] 3(4)
      by auto
  next
    case nc: False
    then have n: "\<not> str_in ''ret i32 1'' line" "\<not> str_in ''ret i32 0'' line"
      "\<not> str_in ''store i32 1'' line" "\<not> str_in ''store i32 0'' line"
      by (auto simp: const_line_def)
    show ?thesis
    proof (cases "str_in ''br label'' line")
      case False
      with n 3(4) have "frv_lines frames rest blocks visited = Inr (r, visited')"
        by simp
      from 3(3)[OF n False this] show ?thesis .
    next
      case br: True
      show ?thesis
      proof (cases "frv_parts frames (str_split line) blocks visited")
        case (Inl e)
        with n br 3(4) show ?thesis by simp
      next
        case (Inr b)
        obtain x y where b: "b = (x, y)" by (cases b)
        have sub: "visited \<subseteq> y" using 3(1)[OF n br] Inr b by simp
        show ?thesis
        proof (cases x)
          case None
          with n br Inr b 3(4) have "frv_lines frames rest blocks y = Inr (r, visited')"
            by simp
          from 3(2)[OF n br Inr b[symmetric] None this] sub show ?thesis by auto
        next
          case (Some c)
          with n br Inr b 3(4) sub show ?thesis by simp
        qed
      qed
    qed
  qed
next
  case (4 frames blocks visited)
  then show ?case by simp
next
  case (5 frames part parts blocks visited)
  show ?case
  proof (cases "prefix ''%'' part")
    case False
    with 5(4) have "frv_parts frames parts blocks visited = Inr (r, visited')" by simp
    from 5(3)[OF False this] show ?thesis .
  next
    case pr: True
    show ?thesis
    proof (cases "find_return_value frames (branch_target part) blocks visited")
      case (Inl e)
      with pr 5(4) show ?thesis by simp
    next
      case (Inr b)
      obtain x y where b: "b = (x, y)" by (cases b)
      have sub: "visited \<subseteq> y" using 5(1)[OF pr] Inr b by simp
      show ?thesis
      proof (cases x)
        case None
        with pr Inr b 5(4) have "frv_parts frames parts blocks y = Inr (r, visited')" by simp
        from 5(2)[OF pr Inr b[symmetric] None this] sub show ?thesis by auto
      next
        case (Some c)
        with pr Inr b 5(4) sub show ?thesis by simp
      qed
    qed
  qed
qed

text \<open>With more frames than there are labels left to visit, no call runs out of frames.\<close>

lemma frv_returns:
  "unvisited blocks visited < frames \<Longrightarrow>
     \<exists>r visited'. find_return_value frames label blocks visited = Inr (r, visited')"
  "(ls \<noteq> [] \<longrightarrow> unvisited blocks visited < frames) \<Longrightarrow>
     \<exists>r visited'. frv_lines frames ls blocks visited = Inr (r, visited')"
  "unvisited blocks visited < frames \<Longrightarrow>
     \<exists>r visited'. frv_parts frames ps blocks visited = Inr (r, visited')"
proof (induction frames label blocks visited and frames ls blocks visited
         and frames ps blocks visited
       rule: find_return_value_frv_lines_frv_parts.induct)
  case (1 frames label blocks visited)
  have f: "frames \<noteq> 0" using 1(2) by (auto split: if_splits)
  show ?case
  proof (cases "label \<in> visited")
    case True
    with f show ?thesis by simp
  next
    case False
    have "dict_get blocks label \<noteq> [] \<longrightarrow> unvisited blocks (insert label visited) < frames - 1"
    proof
      assume "dict_get blocks label \<noteq> []"
      then obtain ls where "map_of blocks label = Some ls"
        using dict_get_absent[of blocks label] by (cases "map_of blocks label") auto
      from unvisited_insert[OF False this] 1(2)
      show "unvisited blocks (insert label visited) < frames - 1" by arith
    qed
    from 1(1)[OF f False this] f False show ?thesis by simp
  qed
next
  case (2 frames blocks visited)
  then show ?case by simp
next
  case (3 frames line rest blocks visited)
  have u: "unvisited blocks visited < frames" using 3(4) by simp
  show ?case
  proof (cases "const_line line")
    case True
    then show ?thesis using frv_lines_const[OF True, of frames rest blocks visited] by auto
  next
    case nc: False
    then have n: "\<not> str_in ''ret i32 1'' line" "\<not> str_in ''ret i32 0'' line"
      "\<not> str_in ''store i32 1'' line" "\<not> str_in ''store i32 0'' line"
      by (auto simp: const_line_def)
    show ?thesis
    proof (cases "str_in ''br label'' line")
      case False
      from 3(3)[OF n False] u n False show ?thesis by simp
    next
      case br: True
      from 3(1)[OF n br u] obtain x y where
        p: "frv_parts frames (str_split line) blocks visited = Inr (x, y)" by blast
      have "unvisited blocks y < frames"
        using frv_visited_mono(3)[OF p] unvisited_mono[of visited y blocks] u by simp
      then have "rest \<noteq> [] \<longrightarrow> unvisited blocks y < frames" by simp
      from 3(2)[OF n br p refl _ this] n br p show ?thesis
        by (cases x) auto
    qed
  qed
next
  case (4 frames blocks visited)
  then show ?case by simp
next
  case (5 frames part parts blocks visited)
  show ?case
  proof (cases "prefix ''%'' part")
    case False
    from 5(3)[OF False 5(4)] False show ?thesis by simp
  next
    case pr: True
    from 5(1)[OF pr 5(4)] obtain x y where
      p: "find_return_value frames (branch_target part) blocks visited = Inr (x, y)" by blast
    have "unvisited blocks y < frames"
      using frv_visited_mono(1)[OF p] unvisited_mono[of visited y blocks] 5(4) by simp
    from 5(2)[OF pr p refl _ this] pr p show ?thesis by (cases x) auto
  qed
qed

text \<open>The only error is the one of the frames.\<close>

lemma frv_error:
  "find_return_value frames label blocks visited = Inl e \<Longrightarrow> e = RecursionError"
  "frv_lines frames ls blocks visited = Inl e \<Longrightarrow> e = RecursionError"
  "frv_parts frames ps blocks visited = Inl e \<Longrightarrow> e = RecursionError"
proof (induction frames label blocks visited and frames ls blocks visited
         and frames ps blocks visited
       rule: find_return_value_frv_lines_frv_parts.induct)
  case (1 frames label blocks visited)
  then show ?case by (auto split: if_splits)
next
  case (2 frames blocks visited)
  then show ?case by simp
next
  case (3 frames line rest blocks visited)
  show ?case
  proof (cases "const_line line")
    case True
    then show ?thesis using frv_lines_const[OF True, of frames rest blocks visited] 3(4)
      by auto
  next
    case nc: False
    then have n: "\<not> str_in ''ret i32 1'' line" "\<not> str_in ''ret i32 0'' line"
      "\<not> str_in ''store i32 1'' line" "\<not> str_in ''store i32 0'' line"
      by (auto simp: const_line_def)
    show ?thesis
    proof (cases "str_in ''br label'' line")
      case False
      with n 3(4) have "frv_lines frames rest blocks visited = Inl e"
        by simp
      from 3(3)[OF n False this] show ?thesis .
    next
      case br: True
      show ?thesis
      proof (cases "frv_parts frames (str_split line) blocks visited")
        case (Inl e')
        with n br 3(4) have "e' = e" by simp
        with Inl 3(1)[OF n br] show ?thesis by simp
      next
        case (Inr b)
        obtain x y where b: "b = (x, y)" by (cases b)
        show ?thesis
        proof (cases x)
          case None
          with n br Inr b 3(4) have "frv_lines frames rest blocks y = Inl e"
            by simp
          from 3(2)[OF n br Inr b[symmetric] None this] show ?thesis .
        next
          case (Some c)
          with n br Inr b 3(4) show ?thesis by simp
        qed
      qed
    qed
  qed
next
  case (4 frames blocks visited)
  then show ?case by simp
next
  case (5 frames part parts blocks visited)
  show ?case
  proof (cases "prefix ''%'' part")
    case False
    with 5(4) have "frv_parts frames parts blocks visited = Inl e" by simp
    from 5(3)[OF False this] show ?thesis .
  next
    case pr: True
    show ?thesis
    proof (cases "find_return_value frames (branch_target part) blocks visited")
      case (Inl e')
      with pr 5(4) have "e' = e" by simp
      with Inl 5(1)[OF pr] show ?thesis by simp
    next
      case (Inr b)
      obtain x y where b: "b = (x, y)" by (cases b)
      show ?thesis
      proof (cases x)
        case None
        with pr Inr b 5(4) have "frv_parts frames parts blocks y = Inl e" by simp
        from 5(2)[OF pr Inr b[symmetric] None this] show ?thesis .
      next
        case (Some c)
        with pr Inr b 5(4) show ?thesis by simp
      qed
    qed
  qed
qed

text \<open>Where no block that can be reached holds a constant line, a call that returns
  returns \<open>None\<close>, whatever has been visited.\<close>

lemma frv_unknown:
  "find_return_value frames label blocks visited = Inr (r, visited') \<Longrightarrow>
   (\<forall>l \<in> reachable blocks label. \<forall>line \<in> set (dict_get blocks l). \<not> const_line line) \<Longrightarrow>
     r = None"
  "frv_lines frames ls blocks visited = Inr (r, visited') \<Longrightarrow>
   (\<forall>line \<in> set ls. \<not> const_line line \<and>
       (str_in ''br label'' line \<longrightarrow> (\<forall>part \<in> set (str_split line). prefix ''%'' part \<longrightarrow>
          (\<forall>l \<in> reachable blocks (branch_target part).
             \<forall>line' \<in> set (dict_get blocks l). \<not> const_line line')))) \<Longrightarrow>
     r = None"
  "frv_parts frames ps blocks visited = Inr (r, visited') \<Longrightarrow>
   (\<forall>part \<in> set ps. prefix ''%'' part \<longrightarrow>
       (\<forall>l \<in> reachable blocks (branch_target part).
          \<forall>line' \<in> set (dict_get blocks l). \<not> const_line line')) \<Longrightarrow>
     r = None"
proof (induction frames label blocks visited and frames ls blocks visited
         and frames ps blocks visited
       arbitrary: r visited' and r visited' and r visited'
       rule: find_return_value_frv_lines_frv_parts.induct)
  case (1 frames label blocks visited)
  have f: "frames \<noteq> 0" using 1(2) by (auto split: if_splits)
  show ?case
  proof (cases "label \<in> visited")
    case True
    with f 1(2) show ?thesis by simp
  next
    case False
    have run: "frv_lines (frames - 1) (dict_get blocks label) blocks (insert label visited)
                 = Inr (r, visited')"
      using f False 1(2) by simp
    have "\<forall>line \<in> set (dict_get blocks label). \<not> const_line line \<and>
       (str_in ''br label'' line \<longrightarrow> (\<forall>part \<in> set (str_split line). prefix ''%'' part \<longrightarrow>
          (\<forall>l \<in> reachable blocks (branch_target part).
             \<forall>line' \<in> set (dict_get blocks l). \<not> const_line line')))"
    proof (intro ballI conjI impI)
      fix line assume "line \<in> set (dict_get blocks label)"
      then show "\<not> const_line line" using 1(3) reachable.start by blast
    next
      fix line part l line'
      assume a: "line \<in> set (dict_get blocks label)" "str_in ''br label'' line"
        "part \<in> set (str_split line)" "prefix ''%'' part"
        "l \<in> reachable blocks (branch_target part)" "line' \<in> set (dict_get blocks l)"
      have "branch_target part \<in> reachable blocks label"
        using reachable.step[OF reachable.start a(1-4)] .
      then have "l \<in> reachable blocks label" using a(5) reachable_trans by blast
      then show "\<not> const_line line'" using 1(3) a(6) by blast
    qed
    from 1(1)[OF f False run this] show ?thesis .
  qed
next
  case (2 frames blocks visited)
  then show ?case by simp
next
  case (3 frames line rest blocks visited)
  have nc: "\<not> const_line line" using 3(5) by simp
  then have n: "\<not> str_in ''ret i32 1'' line" "\<not> str_in ''ret i32 0'' line"
    "\<not> str_in ''store i32 1'' line" "\<not> str_in ''store i32 0'' line"
    by (auto simp: const_line_def)
  have rest: "\<forall>line \<in> set rest. \<not> const_line line \<and>
       (str_in ''br label'' line \<longrightarrow> (\<forall>part \<in> set (str_split line). prefix ''%'' part \<longrightarrow>
          (\<forall>l \<in> reachable blocks (branch_target part).
             \<forall>line' \<in> set (dict_get blocks l). \<not> const_line line')))"
    using 3(5) by simp
  show ?case
  proof (cases "str_in ''br label'' line")
    case False
    with n 3(4) have "frv_lines frames rest blocks visited = Inr (r, visited')"
      by simp
    from 3(3)[OF n False this rest] show ?thesis .
  next
    case br: True
    have parts: "\<forall>part \<in> set (str_split line). prefix ''%'' part \<longrightarrow>
       (\<forall>l \<in> reachable blocks (branch_target part).
          \<forall>line' \<in> set (dict_get blocks l). \<not> const_line line')"
      using 3(5) br by simp
    show ?thesis
    proof (cases "frv_parts frames (str_split line) blocks visited")
      case (Inl e)
      with n br 3(4) show ?thesis by simp
    next
      case (Inr b)
      obtain x y where b: "b = (x, y)" by (cases b)
      have x: "x = None" using 3(1)[OF n br _ parts] Inr b by simp
      with n br Inr b 3(4) have "frv_lines frames rest blocks y = Inr (r, visited')"
        by simp
      from 3(2)[OF n br Inr b[symmetric] x this rest] show ?thesis .
    qed
  qed
next
  case (4 frames blocks visited)
  then show ?case by simp
next
  case (5 frames part parts blocks visited)
  have rest: "\<forall>part \<in> set parts. prefix ''%'' part \<longrightarrow>
       (\<forall>l \<in> reachable blocks (branch_target part).
          \<forall>line' \<in> set (dict_get blocks l). \<not> const_line line')"
    using 5(5) by simp
  show ?case
  proof (cases "prefix ''%'' part")
    case False
    with 5(4) have "frv_parts frames parts blocks visited = Inr (r, visited')" by simp
    from 5(3)[OF False this rest] show ?thesis .
  next
    case pr: True
    have tgt: "\<forall>l \<in> reachable blocks (branch_target part).
          \<forall>line' \<in> set (dict_get blocks l). \<not> const_line line'"
      using 5(5) pr by simp
    show ?thesis
    proof (cases "find_return_value frames (branch_target part) blocks visited")
      case (Inl e)
      with pr 5(4) show ?thesis by simp
    next
      case (Inr b)
      obtain x y where b: "b = (x, y)" by (cases b)
      have x: "x = None" using 5(1)[OF pr _ tgt] Inr b by simp
      with pr Inr b 5(4) have "frv_parts frames parts blocks y = Inr (r, visited')" by simp
      from 5(2)[OF pr Inr b[symmetric] x this rest] show ?thesis .
    qed
  qed
qed

subsection \<open>A cycle of two blocks\<close>


lemma cycle_example_blocks:
  "build_block_map cycle_example =
     [(''1'', [''  br label %2\<newline>'']), (''2'', [''  br label %1\<newline>''])]"
  by code_simp

lemma cycle_example_reachable:
  "l \<in> reachable (build_block_map cycle_example) ''1'' \<Longrightarrow> l = ''1'' \<or> l = ''2''"
proof (induction rule: reachable.induct)
  case start
  then show ?case by simp
next
  case (step l line part)
  then show ?case
    unfolding cycle_example_blocks
    by (auto simp: dict_get_def str_split_def is_space_def branch_target_def
        str_lstrip_def str_rstrip_def)
qed

lemma cycle_example_no_const:
  "\<forall>l \<in> reachable (build_block_map cycle_example) ''1''.
     \<forall>line \<in> set (dict_get (build_block_map cycle_example) l). \<not> const_line line"
proof (intro ballI)
  fix l line
  assume "l \<in> reachable (build_block_map cycle_example) ''1''"
    and "line \<in> set (dict_get (build_block_map cycle_example) l)"
  then show "\<not> const_line line"
    using cycle_example_reachable[of l] unfolding cycle_example_blocks
    by (auto simp: dict_get_def const_line_def)
qed

lemma cycle_example_cycle:
  "''1'' \<in> reachable (build_block_map cycle_example) ''2''"
proof -
  have "branch_target ''%1'' \<in> reachable (build_block_map cycle_example) ''2''"
    by (rule reachable.step[OF reachable.start, where line = "''  br label %1\<newline>''"])
       (simp_all add: cycle_example_blocks dict_get_def str_split_def is_space_def)
  then show ?thesis
    by (simp add: branch_target_def str_lstrip_def str_rstrip_def)
qed

lemma cycle_example_unvisited: "unvisited (build_block_map cycle_example) {} = 2"
  by (simp add: cycle_example_blocks unvisited_def)

lemma resolver_frames_value: "resolver_frames = 997"
  by (simp add: resolver_frames_def recursion_limit_def)

subsection \<open>A ring longer than the frames\<close>

lemma ones_inj: "ones j = ones k \<longleftrightarrow> j = k"
proof
  assume "ones j = ones k"
  then have "length (ones j) = length (ones k)" by simp
  then show "j = k" by (simp add: ones_def)
qed simp

lemma map_of_keyed:
  "k \<in> set xs \<Longrightarrow> (\<And>i j. f i = f j \<Longrightarrow> i = j) \<Longrightarrow>
     map_of (map (\<lambda>k. (f k, g k)) xs) (f k) = Some (g k)"
  by (induction xs) auto

lemma ring_get: "k < n \<Longrightarrow> dict_get (ring n) (ones k) = [hop (Suc k mod n)]"
proof -
  assume "k < n"
  then have "k \<in> set [0..<n]" by simp
  then have "map_of (ring n) (ones k) = Some [hop (Suc k mod n)]"
    unfolding ring_def
    by (rule map_of_keyed[where f = ones and g = "\<lambda>k. [hop (Suc k mod n)]"])
       (simp add: ones_inj)
  then show ?thesis by (simp add: dict_get_def)
qed

lemma split_from_run:
  "\<forall>c \<in> set xs. \<not> is_space c \<Longrightarrow> split_from cur (xs @ rest) = split_from (cur @ xs) rest"
  by (induction xs arbitrary: cur) auto

lemma hop_split: "str_split (hop k) = [''br'', ''label'', ''%'' @ ones k]"
proof -
  have "\<forall>c \<in> set (ones k). \<not> is_space c" by (simp add: ones_def is_space_def)
  from split_from_run[OF this, of "''%''" "''\<newline>''"]
  have "split_from ''%'' (ones k @ ''\<newline>'') = [''%'' @ ones k]"
    by (simp add: is_space_def)
  then show ?thesis by (simp add: str_split_def hop_def is_space_def)
qed

lemma ones_Cons: "ones k = CHR ''1'' # replicate k (CHR ''1'')"
  by (simp add: ones_def)

lemma ones_rev: "rev (ones k) = ones k"
  by (simp add: ones_def replicate_append_same)

lemma hop_target: "branch_target (''%'' @ ones k) = ones k"
proof -
  have "str_lstrip (CHR ''%'') (''%'' @ ones k) = ones k"
    by (simp add: str_lstrip_def ones_Cons)
  moreover have "str_rstrip (CHR '','') (ones k) = ones k"
  proof -
    have "dropWhile (\<lambda>x. x = CHR '','') (ones k) = ones k"
      by (simp add: ones_Cons)
    then show ?thesis by (simp add: str_rstrip_def ones_rev)
  qed
  ultimately show ?thesis by (simp add: branch_target_def)
qed

lemma str_in_set: "str_in sub s \<Longrightarrow> set sub \<subseteq> set s"
  by (auto simp: str_in_iff)

lemma hop_no_const: "\<not> const_line (hop k)"
proof
  assume "const_line (hop k)"
  then have "CHR ''t'' \<in> set (hop k)"
    by (auto simp: const_line_def dest!: str_in_set)
  then show False by (simp add: hop_def ones_def)
qed

lemma hop_branch: "str_in ''br label'' (hop k)"
proof -
  have "hop k = ''  '' @ ''br label'' @ ('' %'' @ ones k @ ''\<newline>'')" by (simp add: hop_def)
  then show ?thesis using str_in_append by metis
qed

lemma hop_lines:
  "frv_lines frames [hop t] blocks visited =
     (case find_return_value frames (ones t) blocks visited of
        Inl e \<Rightarrow> Inl e
      | Inr (Some r, visited') \<Rightarrow> Inr (Some r, visited')
      | Inr (None, visited') \<Rightarrow> Inr (None, visited'))"
proof -
  have n: "\<not> str_in ''ret i32 1'' (hop t)" "\<not> str_in ''ret i32 0'' (hop t)"
    "\<not> str_in ''store i32 1'' (hop t)" "\<not> str_in ''store i32 0'' (hop t)"
    using hop_no_const[of t] by (auto simp: const_line_def)
  have t: "branch_target (CHR ''%'' # ones t) = ones t"
    using hop_target[of t] by simp
  show ?thesis
    using n hop_branch[of t]
    by (simp del: find_return_value.simps add: hop_split t
        split: sum.splits option.splits prod.splits)
qed

lemma ring_overflow:
  "k + frames \<le> n \<Longrightarrow> visited \<subseteq> ones ` {..<k} \<Longrightarrow>
     find_return_value frames (ones k) (ring n) visited = Inl RecursionError"
proof (induction frames arbitrary: k visited)
  case 0
  then show ?case by simp
next
  case (Suc frames)
  have k: "k < n" using Suc.prems(1) by simp
  have fresh: "ones k \<notin> visited" using Suc.prems(2) by (auto simp: ones_inj)
  have next_call: "find_return_value frames (ones (Suc k mod n)) (ring n)
                     (insert (ones k) visited) = Inl RecursionError"
  proof (cases frames)
    case 0
    then show ?thesis by simp
  next
    case (Suc m)
    then have "Suc k < n" using \<open>k + Suc frames \<le> n\<close> by simp
    then have "Suc k mod n = Suc k" by simp
    moreover have "find_return_value frames (ones (Suc k)) (ring n)
        (insert (ones k) visited) = Inl RecursionError"
    proof (rule Suc.IH)
      show "Suc k + frames \<le> n" using Suc.prems(1) by simp
      show "insert (ones k) visited \<subseteq> ones ` {..<Suc k}"
        using Suc.prems(2) by (auto simp: lessThan_Suc)
    qed
    ultimately show ?thesis by simp
  qed
  have "find_return_value (Suc frames) (ones k) (ring n) visited =
          frv_lines frames [hop (Suc k mod n)] (ring n) (insert (ones k) visited)"
    using fresh k by (simp add: ring_get)
  also have "\<dots> = Inl RecursionError"
    unfolding hop_lines next_call by simp
  finally show ?case .
qed

lemma ring_no_const:
  "list_all (\<lambda>(label, ls). list_all (\<lambda>line. \<not> const_line line) ls) (ring n)"
  by (simp add: ring_def list_all_iff hop_no_const)


subsection \<open>The block map of the ring\<close>

lemma dict_set_fresh: "k \<notin> fst ` set d \<Longrightarrow> dict_set k v d = d @ [(k, v)]"
  by (induction k v d rule: dict_set.induct) auto

lemma ones_not_space: "c \<in> set (ones k) \<Longrightarrow> \<not> is_space c"
  by (auto simp: ones_def is_space_def)

lemma strip_label: "str_strip (ones k @ '':\<newline>'') = ones k @ '':''"
proof -
  have "dropWhile is_space (rev (ones k @ '':\<newline>'')) = CHR '':'' # ones k"
    by (simp add: ones_rev is_space_def)
  then have "str_strip (ones k @ '':\<newline>'') = dropWhile is_space (ones k @ '':'')"
    by (simp add: str_strip_def ones_rev)
  also have "\<dots> = ones k @ '':''"
    by (simp add: ones_Cons is_space_def)
  finally show ?thesis .
qed

lemma strip_hop: "str_strip (hop t) = ''br label %'' @ ones t"
proof -
  have "rev (hop t) = CHR ''\<newline>'' # ones t @ rev ''  br label %''"
    by (simp add: hop_def ones_rev)
  then have "dropWhile is_space (rev (hop t)) = ones t @ rev ''  br label %''"
    by (simp add: ones_Cons is_space_def)
  then have "str_strip (hop t) = dropWhile is_space (''  br label %'' @ ones t)"
    by (simp add: str_strip_def ones_rev)
  also have "\<dots> = ''br label %'' @ ones t"
    by (simp add: is_space_def)
  finally show ?thesis .
qed

lemma label_line: "label_like (ones k @ '':\<newline>'')"
  "str_in '':'' (str_strip (ones k @ '':\<newline>''))"
  "label_of (ones k @ '':\<newline>'') = ones k"
proof -
  show "label_like (ones k @ '':\<newline>'')"
    unfolding label_like_def strip_label Let_def by (simp add: ones_Cons isdigit_def)
  show "str_in '':'' (str_strip (ones k @ '':\<newline>''))"
    unfolding strip_label using str_in_append[of "'':''" "ones k" "[]"] by simp
  have "takeWhile (\<lambda>x. x \<noteq> CHR '':'') (ones k @ '':'') =
          ones k @ takeWhile (\<lambda>x. x \<noteq> CHR '':'') '':''"
    by (rule takeWhile_append2) (auto simp: ones_def)
  then show "label_of (ones k @ '':\<newline>'') = ones k"
    by (simp add: label_of_def before_colon_def strip_label)
qed

lemma hop_not_label: "\<not> label_like (hop t)"
proof -
  have u: "CHR ''_'' \<notin> set (''br label %'' @ ones t)" by (simp add: ones_def)
  have "\<not> str_in ''safe_'' (''br label %'' @ ones t)"
    using u str_in_set[of "''safe_''" "''br label %'' @ ones t"] by auto
  moreover have "\<not> str_in ''fault_'' (''br label %'' @ ones t)"
    using u str_in_set[of "''fault_''" "''br label %'' @ ones t"] by auto
  ultimately show ?thesis
    by (simp add: label_like_def strip_hop Let_def isdigit_def)
qed

lemma ones_nonempty: "ones k \<noteq> []"
  by (simp add: ones_def)

lemma block_loop_ring:
  "distinct (k0 # ks) \<Longrightarrow> \<forall>k \<in> set (k0 # ks). ones k \<notin> fst ` set b \<Longrightarrow>
     block_loop (concat (map (\<lambda>k. [ones k @ '':\<newline>'', hop (f k)]) ks)) b
        (Some (ones k0)) [hop (f k0)] =
     b @ map (\<lambda>k. (ones k, [hop (f k)])) (k0 # ks)"
proof (induction ks arbitrary: b k0)
  case Nil
  have "ones k0 \<noteq> []" by (simp add: ones_def)
  then show ?case using Nil by (simp add: flush_def dict_set_fresh)
next
  case (Cons k ks)
  let ?b = "b @ [(ones k0, [hop (f k0)])]"
  have ne: "ones k0 \<noteq> []" by (simp add: ones_def)
  have fl: "flush (Some (ones k0)) [hop (f k0)] b = ?b"
    using Cons.prems(2) ne by (simp add: flush_def dict_set_fresh)
  have d: "distinct (k # ks)" using Cons.prems(1) by simp
  have fresh: "\<forall>j \<in> set (k # ks). ones j \<notin> fst ` set ?b"
    using Cons.prems by (auto simp: ones_inj)
  have "block_loop (concat (map (\<lambda>k. [ones k @ '':\<newline>'', hop (f k)]) (k # ks))) b
          (Some (ones k0)) [hop (f k0)] =
        block_loop (concat (map (\<lambda>k. [ones k @ '':\<newline>'', hop (f k)]) ks)) ?b
          (Some (ones k)) [hop (f k)]"
    using ne ones_nonempty[of k] by (simp add: label_line hop_not_label fl)
  also have "\<dots> = ?b @ map (\<lambda>k. (ones k, [hop (f k)])) (k # ks)"
    by (rule Cons.IH[OF d fresh])
  finally show ?case by simp
qed

lemma ring_lines_blocks:
  assumes "\<not> label_like l1" "\<not> label_like l2" "0 < n"
  shows "build_block_map (l1 # l2 # ring_lines n) = ring n"
proof -
  have u: "[0..<n] = 0 # [1..<n]" using assms(3) by (simp add: upt_conv_Cons)
  have ne: "ones 0 \<noteq> []" by (simp add: ones_def)
  let ?f = "\<lambda>k. Suc k mod n"
  have "build_block_map (l1 # l2 # ring_lines n) = block_loop (ring_lines n) [] None []"
    using assms(1,2) by (simp add: build_block_map_def)
  also have "\<dots> = block_loop (concat (map (\<lambda>k. [ones k @ '':\<newline>'', hop (?f k)]) [1..<n]))
                      [] (Some (ones 0)) [hop (?f 0)]"
    unfolding ring_lines_def u using ne by (simp add: label_line hop_not_label flush_def)
  also have "\<dots> = [] @ map (\<lambda>k. (ones k, [hop (?f k)])) (0 # [1..<n])"
    by (rule block_loop_ring) simp_all
  finally show ?thesis by (simp add: ring_def u)
qed

lemma ring_lines_length: "length (ring_lines n) = 2 * n"
proof -
  have "length (concat (map (\<lambda>k. [a k, b k]) ks)) = 2 * length ks" for a b :: "nat \<Rightarrow> string" and ks
    by (induction ks) auto
  then show ?thesis by (simp add: ring_lines_def)
qed

lemma deep_example_blocks: "build_block_map deep_example = ring 1000"
proof -
  have "\<not> label_like ''  %c = icmp eq i32 %a, %b\<newline>''" by code_simp
  moreover have "\<not> label_like ''  br i1 %c, label %1, label %1\<newline>''" by code_simp
  ultimately show ?thesis
    unfolding deep_example_def using ring_lines_blocks[of _ _ 1000] by simp
qed

lemma deep_example_score: "score_comparison ''%c'' deep_example 0 = Inl RecursionError"
proof -
  have l1: "deep_example ! 1 = ''  br i1 %c, label %1, label %1\<newline>''"
    by (simp add: deep_example_def)
  have h3: "consumes ''%c'' (deep_example ! 1)" unfolding l1 by code_simp
  have parts: "str_split (deep_example ! 1) =
                 [''br'', ''i1'', ''%c,'', ''label'', ''%1,'', ''label'', ''%1'']"
    unfolding l1 by code_simp
  have t: "branch_target ''%1,'' = ones 0" by code_simp
  have w: "[0 + 1 ..< min (0 + 5) (length deep_example)] = [1, 2, 3, 4]"
    by (simp add: deep_example_def ring_lines_length upt_conv_Cons)
  have r: "find_return_value resolver_frames (ones 0) (ring 1000) {} = Inl RecursionError"
    by (rule ring_overflow) (simp_all add: resolver_frames_value)
  have "score_comparison ''%c'' deep_example 0 =
          score_branch (str_split (deep_example ! 1)) (build_block_map deep_example)"
    unfolding score_comparison_def w using h3 by simp
  also have "\<dots> = Inl RecursionError"
    unfolding parts deep_example_blocks
    by (simp add: score_branch_def t r Let_def del: find_return_value.simps)
  finally show ?thesis .
qed

lemma deep_example_process: "process_lines deep_example threshold = Inl RecursionError"
proof -
  have "map_option result (parse_icmp ''  %c = icmp eq i32 %a, %b\<newline>'') = Some ''%c''"
    by code_simp
  then obtain info where "parse_icmp (hd deep_example) = Some info" "result info = ''%c''"
    by (auto simp: deep_example_def)
  then have "scan deep_example threshold = Inl RecursionError"
    using deep_example_score by (simp add: scan_def deep_example_def)
  then show ?thesis by (simp add: process_lines_def)
qed


subsection \<open>Rings that fit the frames\<close>

lemma ring_keys: "fst ` set (ring n) = ones ` {..<n}"
proof -
  have "fst ` set (ring n) = ones ` {0..<n}" by (simp add: ring_def image_image)
  then show ?thesis by (simp add: atLeast0LessThan)
qed

lemma ring_unvisited: "unvisited (ring n) {} = n"
proof -
  have "inj_on ones {..<n}" by (simp add: inj_on_def ones_inj)
  then show ?thesis by (simp add: unvisited_def ring_keys card_image)
qed

lemma ring_lines_plain: "line \<in> set (dict_get (ring n) l) \<Longrightarrow> \<not> const_line line"
proof (cases "map_of (ring n) l")
  case None
  assume "line \<in> set (dict_get (ring n) l)"
  then show ?thesis using None by (simp add: dict_get_def)
next
  case (Some v)
  assume l: "line \<in> set (dict_get (ring n) l)"
  from Some have "(l, v) \<in> set (ring n)" by (rule map_of_SomeD)
  then obtain k where "v = [hop (Suc k mod n)]" by (auto simp: ring_def)
  then show ?thesis using l Some hop_no_const by (simp add: dict_get_def)
qed

lemma ring_unknown:
  assumes "n < frames"
  shows "\<exists>visited. find_return_value frames label (ring n) {} = Inr (None, visited)"
proof -
  obtain r visited where f: "find_return_value frames label (ring n) {} = Inr (r, visited)"
    using frv_returns(1)[of "ring n" "{}" frames label] assms by (auto simp: ring_unvisited)
  have "r = None"
    using frv_unknown(1)[OF f] ring_lines_plain by blast
  then show ?thesis using f by blast
qed

text \<open>
  Within the frames the resolver is cycle safe. Every call lies in the domain of the
  recursion, whatever the blocks. A label that is already in \<open>visited\<close> returns
  \<open>None\<close> at once and leaves the set as it is. With more frames than there are labels left
  to visit the call returns, and when no block that can be reached from the label holds a
  return or a store of a constant, it returns \<open>None\<close> (Unknown).
\<close>

lemma find_return_value_within_frames:
  "find_return_value_frv_lines_frv_parts_dom (Inl (frames, label, blocks, visited)) \<and>
   (0 < frames \<and> label \<in> visited \<longrightarrow>
      find_return_value frames label blocks visited = Inr (None, visited)) \<and>
   (unvisited blocks visited < frames \<longrightarrow>
      (\<exists>r visited'. find_return_value frames label blocks visited = Inr (r, visited'))) \<and>
   (unvisited blocks visited < frames \<and>
    (\<forall>l \<in> reachable blocks label. \<forall>line \<in> set (dict_get blocks l). \<not> const_line line) \<longrightarrow>
      (\<exists>visited'. find_return_value frames label blocks visited = Inr (None, visited')))"
proof (intro conjI impI)
  show "find_return_value_frv_lines_frv_parts_dom (Inl (frames, label, blocks, visited))"
    using find_return_value_total by simp
  show "find_return_value frames label blocks visited = Inr (None, visited)"
    if "0 < frames \<and> label \<in> visited"
    using that by simp
  show "\<exists>r visited'. find_return_value frames label blocks visited = Inr (r, visited')"
    if "unvisited blocks visited < frames"
    using that by (rule frv_returns(1))
  show "\<exists>visited'. find_return_value frames label blocks visited = Inr (None, visited')"
    if h: "unvisited blocks visited < frames \<and>
      (\<forall>l \<in> reachable blocks label. \<forall>line \<in> set (dict_get blocks l). \<not> const_line line)"
  proof -
    obtain r visited' where f: "find_return_value frames label blocks visited = Inr (r, visited')"
      using frv_returns(1)[of blocks visited frames label] h by blast
    have "r = None" using frv_unknown(1)[OF f] h by blast
    then show ?thesis using f by blast
  qed
qed

lemma cycle_example_unknown:
  "find_return_value resolver_frames ''1'' (build_block_map cycle_example) {} =
     Inr (None, {''1'', ''2''})"
  by code_simp

text \<open>The rings of 996 and of 997 blocks are the last that fits the frames and the first
  that does not.\<close>

lemma ring_boundary:
  "(\<exists>visited. find_return_value resolver_frames ''1'' (ring 996) {} = Inr (None, visited)) \<and>
   find_return_value resolver_frames ''1'' (ring 997) {} = Inl RecursionError"
proof
  show "\<exists>visited. find_return_value resolver_frames ''1'' (ring 996) {} = Inr (None, visited)"
    by (rule ring_unknown) (simp add: resolver_frames_value)
  have "find_return_value resolver_frames (ones 0) (ring 997) {} = Inl RecursionError"
    by (rule ring_overflow) (simp_all add: resolver_frames_value)
  then show "find_return_value resolver_frames ''1'' (ring 997) {} = Inl RecursionError"
    by (simp add: ones_def)
qed

text \<open>
  C6 at a failing input. \<open>ring n\<close> is a cycle of \<open>n\<close> blocks, none of which holds a return or
  a store of a constant. On the ring of 2 blocks the resolver returns \<open>None\<close> (Unknown). The
  ring of 1000 blocks is the block map of \<open>deep_example\<close>; there the resolver runs out of
  frames before it meets a visited label and raises \<open>RecursionError\<close>, and so do
  \<open>score_comparison\<close> and the whole run at every threshold.
\<close>

theorem find_return_value_deep_cycle:
  "ring 2 = [(''1'', [''  br label %11\<newline>'']), (''11'', [''  br label %1\<newline>''])] \<and>
   find_return_value resolver_frames ''1'' (ring 2) {} = Inr (None, {''1'', ''11''}) \<and>
   build_block_map deep_example = ring 1000 \<and>
   list_all (\<lambda>(label, ls). list_all (\<lambda>line. \<not> const_line line) ls) (ring 1000) \<and>
   find_return_value resolver_frames ''1'' (ring 1000) {} = Inl RecursionError \<and>
   score_comparison ''%c'' deep_example 0 = Inl RecursionError \<and>
   (\<forall>threshold. process_lines deep_example threshold = Inl RecursionError)"
proof (intro conjI allI)
  show "ring 2 = [(''1'', [''  br label %11\<newline>'']), (''11'', [''  br label %1\<newline>''])]"
    by code_simp
  show "find_return_value resolver_frames ''1'' (ring 2) {} = Inr (None, {''1'', ''11''})"
    by code_simp
  show "build_block_map deep_example = ring 1000"
    by (rule deep_example_blocks)
  show "list_all (\<lambda>(label, ls). list_all (\<lambda>line. \<not> const_line line) ls) (ring 1000)"
    by (rule ring_no_const)
  have "find_return_value resolver_frames (ones 0) (ring 1000) {} = Inl RecursionError"
    by (rule ring_overflow) (simp_all add: resolver_frames_value)
  then show "find_return_value resolver_frames ''1'' (ring 1000) {} = Inl RecursionError"
    by (simp add: ones_def)
  show "score_comparison ''%c'' deep_example 0 = Inl RecursionError"
    by (rule deep_example_score)
  show "process_lines deep_example threshold = Inl RecursionError" for threshold
    by (rule deep_example_process)
qed

text \<open>
  C10. The resolver tests \<open>'ret i32 1' in line\<close> and \<open>'store i32 1' in line\<close>, so a block
  whose only terminator is \<open>ret i32 10\<close>, or a store of 17, resolves to the constant 1; any
  line that holds the text \<open>ret i32 1\<close> anywhere does.
\<close>

theorem resolver_substring_match:
  "find_return_value resolver_frames ''5''
     (build_block_map [''5:\<newline>'', ''  ret i32 10\<newline>'']) {} = Inr (Some 1, {''5''}) \<and>
   find_return_value resolver_frames ''5''
     (build_block_map [''5:\<newline>'', ''  store i32 17, i32* %2\<newline>'']) {} =
       Inr (Some 1, {''5''}) \<and>
   (\<forall>frames pre post rest blocks visited.
      frv_lines frames ((pre @ ''ret i32 1'' @ post) # rest) blocks visited =
        Inr (Some 1, visited))"
proof (intro conjI allI)
  show "find_return_value resolver_frames ''5''
     (build_block_map [''5:\<newline>'', ''  ret i32 10\<newline>'']) {} = Inr (Some 1, {''5''})"
    by code_simp
  show "find_return_value resolver_frames ''5''
     (build_block_map [''5:\<newline>'', ''  store i32 17, i32* %2\<newline>'']) {} =
       Inr (Some 1, {''5''})"
    by code_simp
  show "frv_lines frames ((pre @ ''ret i32 1'' @ post) # rest) blocks visited =
          Inr (Some 1, visited)"
    for frames pre post rest blocks visited
    using str_in_append[of "''ret i32 1''" pre post] by simp
qed

section \<open>The criticality score\<close>

lemma score_loop_first:
  "\<forall>j \<in> set xs. \<not> consumes c (lines ! j) \<Longrightarrow> consumes c (lines ! i) \<Longrightarrow>
     score_loop c lines b (xs @ i # ys) = score_branch (str_split (lines ! i)) b"
  by (induction xs) auto

lemma score_loop_none:
  "\<forall>j \<in> set xs. \<not> consumes c (lines ! j) \<Longrightarrow> score_loop c lines b xs = Inr 0"
  by (induction xs) auto

lemma score_comparison_first:
  assumes "line_idx < i" "i < min (line_idx + 5) (length lines)"
    and "consumes c (lines ! i)"
    and "\<forall>j. line_idx < j \<and> j < i \<longrightarrow> \<not> consumes c (lines ! j)"
  shows "score_comparison c lines line_idx =
           score_branch (str_split (lines ! i)) (build_block_map lines)"
proof -
  let ?m = "min (line_idx + 5) (length lines)"
  have "[line_idx + 1 ..< ?m] = [line_idx + 1 ..< i] @ [i ..< ?m]"
    using assms(1,2) upt_add_eq_append[of "line_idx + 1" i "?m - i"] by simp
  also have "[i ..< ?m] = i # [Suc i ..< ?m]" using assms(2) by (simp add: upt_conv_Cons)
  finally have w: "[line_idx + 1 ..< ?m] = [line_idx + 1 ..< i] @ i # [Suc i ..< ?m]" .
  have "\<forall>j \<in> set [line_idx + 1 ..< i]. \<not> consumes c (lines ! j)"
    using assms(4) by auto
  then show ?thesis
    unfolding score_comparison_def w using assms(3) by (rule score_loop_first)
qed

lemma map_fst_dict_set: "set (map fst (dict_set k v d)) = insert k (set (map fst d))"
  by (induction k v d rule: dict_set.induct) auto

lemma keys_dict_set: "fst ` set (dict_set k v d) = insert k (fst ` set d)"
  using map_fst_dict_set[of k v d] by simp

lemma keys_flush: "k \<in> fst ` set (flush cl ci b) \<Longrightarrow> k \<in> fst ` set b \<or> (cl = Some k \<and> k \<noteq> [])"
  by (auto simp: flush_def keys_dict_set split: option.splits if_splits)

lemma block_loop_not_label:
  "\<not> is_label line \<Longrightarrow>
     \<exists>ci'. block_loop (line # rest) b cl ci = block_loop rest b cl ci'"
  by (auto simp: is_label_def)

lemma keys_block_loop:
  "k \<in> fst ` set (block_loop ls b cl ci) \<Longrightarrow>
     k \<in> fst ` set b \<or> (cl = Some k \<and> k \<noteq> []) \<or>
     (k \<noteq> [] \<and> (\<exists>l \<in> set ls. is_label l \<and> label_of l = k))"
proof (induction ls arbitrary: b cl ci)
  case Nil
  then show ?case using keys_flush[of k cl ci b] by simp
next
  case (Cons line rest)
  show ?case
  proof (cases "is_label line")
    case True
    then have "k \<in> fst ` set (block_loop rest (flush cl ci b) (Some (label_of line)) [])"
      using Cons.prems by (simp add: is_label_def)
    from Cons.IH[OF this] consider "k \<in> fst ` set (flush cl ci b)"
      | "label_of line = k \<and> k \<noteq> []"
      | "k \<noteq> [] \<and> (\<exists>l \<in> set rest. is_label l \<and> label_of l = k)"
      by blast
    then show ?thesis
    proof cases
      case 1
      then show ?thesis using keys_flush[of k cl ci b] by blast
    next
      case 2
      then show ?thesis using True by simp
    next
      case 3
      then show ?thesis by simp
    qed
  next
    case False
    then obtain ci' where "block_loop (line # rest) b cl ci = block_loop rest b cl ci'"
      using block_loop_not_label by blast
    then have "k \<in> fst ` set (block_loop rest b cl ci')" using Cons.prems by simp
    from Cons.IH[OF this] show ?thesis by auto
  qed
qed

lemma build_block_map_keys:
  "k \<in> fst ` set (build_block_map lines) \<Longrightarrow>
     k \<noteq> [] \<and> (\<exists>l \<in> set lines. is_label l \<and> label_of l = k)"
  unfolding build_block_map_def using keys_block_loop[of k lines "[]" None "[]"] by auto

lemma resolve_empty_label:
  "0 < frames \<Longrightarrow> find_return_value frames [] (build_block_map lines) {} = Inr (None, {[]})"
proof -
  assume f: "0 < frames"
  have "[] \<notin> fst ` set (build_block_map lines)" using build_block_map_keys by blast
  then have "map_of (build_block_map lines) [] = None" by (simp add: map_of_eq_None_iff)
  then show ?thesis using f by (simp add: dict_get_def)
qed

lemma score_branch_resolved:
  assumes "length parts > 6"
    and "find_return_value resolver_frames (branch_target (parts ! 4))
           (build_block_map lines) {} = Inr (Some a, va)"
    and "find_return_value resolver_frames (branch_target (parts ! 6))
           (build_block_map lines) {} = Inr (Some b, vb)"
  shows "score_branch parts (build_block_map lines) = Inr (if a \<noteq> b then 100 else 30)"
proof -
  have "0 < resolver_frames" by (simp add: resolver_frames_def recursion_limit_def)
  then have "branch_target (parts ! 6) \<noteq> []"
    using assms(3) resolve_empty_label[of resolver_frames lines] by auto
  then show ?thesis
    using assms by (simp add: score_branch_def Let_def del: find_return_value.simps)
qed

text \<open>
  When the first line of the window that holds both \<open>br i1\<close> and the result identifier is
  the branch on the comparison, has both targets, and the true target resolves to 1 and the
  false target to 0, or the other way round, the score is 100.
\<close>

lemma score_comparison_first_match_gate:
  assumes "line_idx < i" and "i < min (line_idx + 5) (length lines)"
    and "consumes cmp_result (lines ! i)"
    and "\<forall>j. line_idx < j \<and> j < i \<longrightarrow> \<not> consumes cmp_result (lines ! j)"
    and "length (str_split (lines ! i)) > 6"
    and "find_return_value resolver_frames (branch_target (str_split (lines ! i) ! 4))
           (build_block_map lines) {} = Inr (Some a, va)"
    and "find_return_value resolver_frames (branch_target (str_split (lines ! i) ! 6))
           (build_block_map lines) {} = Inr (Some b, vb)"
    and "(a = 1 \<and> b = 0) \<or> (a = 0 \<and> b = 1)"
  shows "score_comparison cmp_result lines line_idx = Inr 100"
proof -
  have "a \<noteq> b" using assms(8) by auto
  then show ?thesis
    using score_comparison_first[OF assms(1-4)] score_branch_resolved[OF assms(5-7)] by simp
qed

lemma gate_example_score:
  "consumes ''%c'' (gate_example ! 1) \<and>
   find_return_value resolver_frames ''1'' (build_block_map gate_example) {} =
     Inr (Some 1, {''1''}) \<and>
   find_return_value resolver_frames ''2'' (build_block_map gate_example) {} =
     Inr (Some 0, {''2''}) \<and>
   score_comparison ''%c'' gate_example 0 = Inr 100"
  by code_simp

lemma collision_example_branch:
  "score_branch (str_split (collision_example ! 3)) (build_block_map collision_example) =
     Inr 100"
  by code_simp

text \<open>
  C4 at a failing input. In \<open>collision_example\<close> the branch on \<open>%c\<close> is line 3, inside the
  window of the comparison at line 0; its true target resolves to 1 and its false target to 0,
  and \<open>score_branch\<close> gives that branch 100. The loop stops earlier, at line 1: the branch
  on \<open>%cond\<close> holds the text \<open>%c\<close>, so \<open>consumes\<close> accepts it, and neither of its targets
  resolves. The score is 0.
\<close>

theorem score_comparison_prefix_collision:
  "collision_example ! 3 = ''  br i1 %c, label %1, label %2\<newline>'' \<and>
   3 < min (0 + 5) (length collision_example) \<and>
   str_split (collision_example ! 3) =
     [''br'', ''i1'', ''%c,'', ''label'', ''%1,'', ''label'', ''%2''] \<and>
   find_return_value resolver_frames ''1'' (build_block_map collision_example) {} =
     Inr (Some 1, {''1''}) \<and>
   find_return_value resolver_frames ''2'' (build_block_map collision_example) {} =
     Inr (Some 0, {''2''}) \<and>
   str_split (collision_example ! 1) =
     [''br'', ''i1'', ''%cond,'', ''label'', ''%5,'', ''label'', ''%5''] \<and>
   consumes ''%c'' (collision_example ! 1) \<and>
   \<not> consumes ''%c'' (collision_example ! 2) \<and>
   find_return_value resolver_frames ''5'' (build_block_map collision_example) {} =
     Inr (None, {''5''}) \<and>
   score_comparison ''%c'' collision_example 0 = Inr 0"
proof (intro conjI)
  show "collision_example ! 3 = ''  br i1 %c, label %1, label %2\<newline>''"
    by (simp add: collision_example_def)
  show "3 < min (0 + 5) (length collision_example)"
    by (simp add: collision_example_def)
  show "str_split (collision_example ! 3) =
          [''br'', ''i1'', ''%c,'', ''label'', ''%1,'', ''label'', ''%2'']"
    by code_simp
  show "find_return_value resolver_frames ''1'' (build_block_map collision_example) {} =
          Inr (Some 1, {''1''})"
    by code_simp
  show "find_return_value resolver_frames ''2'' (build_block_map collision_example) {} =
          Inr (Some 0, {''2''})"
    by code_simp
  show "str_split (collision_example ! 1) =
          [''br'', ''i1'', ''%cond,'', ''label'', ''%5,'', ''label'', ''%5'']"
    by code_simp
  show "consumes ''%c'' (collision_example ! 1)"
    by code_simp
  show "\<not> consumes ''%c'' (collision_example ! 2)"
    by code_simp
  show "find_return_value resolver_frames ''5'' (build_block_map collision_example) {} =
          Inr (None, {''5''})"
    by code_simp
  show "score_comparison ''%c'' collision_example 0 = Inr 0"
    by code_simp
qed




section \<open>The block map\<close>

lemma map_of_dict_set: "map_of (dict_set k' v d) k = (if k = k' then Some v else map_of d k)"
  by (induction k' v d rule: dict_set.induct) auto

lemma map_of_flush:
  "map_of (flush cl ci b) k = (if cl = Some k \<and> k \<noteq> [] then Some ci else map_of b k)"
  by (auto simp: flush_def map_of_dict_set split: option.splits)

lemma block_loop_skip:
  "\<forall>x \<in> set xs. \<not> is_label x \<Longrightarrow>
     block_loop (xs @ ys) b cl ci =
       block_loop ys b cl (if truthy cl then ci @ filter (\<lambda>x. \<not> label_like x) xs else ci)"
  by (induction xs arbitrary: ci) (auto simp: is_label_def)

lemma block_loop_label:
  "is_label l \<Longrightarrow>
     block_loop (l # ys) b cl ci = block_loop ys (flush cl ci b) (Some (label_of l)) []"
  by (simp add: is_label_def)

lemma block_loop_other_key:
  "\<forall>x \<in> set ys. is_label x \<longrightarrow> label_of x \<noteq> k \<Longrightarrow> cl \<noteq> Some k \<Longrightarrow>
     map_of (block_loop ys b cl ci) k = map_of b k"
proof (induction ys arbitrary: b cl ci)
  case Nil
  then show ?case by (simp add: map_of_flush)
next
  case (Cons y ys)
  show ?case
  proof (cases "is_label y")
    case True
    then have ne: "Some (label_of y) \<noteq> Some k" using Cons.prems(1) by simp
    have "map_of (block_loop ys (flush cl ci b) (Some (label_of y)) []) k =
            map_of (flush cl ci b) k"
      using Cons.IH[OF _ ne] Cons.prems(1) by simp
    then show ?thesis using True Cons.prems(2)
      by (simp add: block_loop_label map_of_flush del: block_loop.simps(2))
  next
    case False
    then show ?thesis using Cons by (auto simp: is_label_def)
  qed
qed

lemma block_loop_prefix:
  "\<exists>b' cl' ci'. block_loop (pre @ zs) b cl ci = block_loop zs b' cl' ci'"
proof (induction pre arbitrary: b cl ci)
  case Nil
  then show ?case by auto
next
  case (Cons x pre)
  show ?case
  proof (cases "label_like x")
    case True
    then show ?thesis using Cons.IH by (cases "str_in '':'' (str_strip x)") auto
  next
    case False
    then show ?thesis using Cons.IH by (cases "truthy cl") auto
  qed
qed

lemma block_loop_block:
  assumes "is_label l" and "label_of l \<noteq> []"
    and "\<forall>x \<in> set body. \<not> is_label x"
    and "rest = [] \<or> is_label (hd rest)"
    and "\<forall>x \<in> set rest. is_label x \<longrightarrow> label_of x \<noteq> label_of l"
  shows "map_of (block_loop (l # body @ rest) b cl ci) (label_of l) =
           Some (filter (\<lambda>x. \<not> label_like x) body)"
proof -
  let ?k = "label_of l" and ?F = "filter (\<lambda>x. \<not> label_like x) body"
  let ?b = "flush cl ci b"
  have 1: "block_loop (l # body @ rest) b cl ci = block_loop rest ?b (Some ?k) ?F"
    using assms(1,2,3) by (simp add: block_loop_label block_loop_skip del: block_loop.simps(2))
  show ?thesis
  proof (cases rest)
    case Nil
    then show ?thesis using 1 assms(2) by (simp add: map_of_flush)
  next
    case (Cons l' r')
    then have lab: "is_label l'" and ne: "label_of l' \<noteq> ?k"
      using assms(4,5) by auto
    have "map_of (block_loop r' (flush (Some ?k) ?F ?b) (Some (label_of l')) []) ?k =
            map_of (flush (Some ?k) ?F ?b) ?k"
      using block_loop_other_key[of r' ?k "Some (label_of l')"] assms(5) Cons ne by simp
    then show ?thesis using 1 Cons lab assms(2)
      by (simp add: block_loop_label map_of_flush del: block_loop.simps(2))
  qed
qed

text \<open>
  C2, as the code has it. A line starts a block when its stripped text is not empty, begins
  with a digit or holds \<open>safe_\<close> or \<open>fault_\<close>, and holds a colon (\<open>is_label\<close>); the
  key is the text before the first colon. The block of such a line, when its key is not empty
  and no later label line has the same key, is the lines up to the next label line, for
  lines that neither begin with a digit nor hold \<open>safe_\<close> or \<open>fault_\<close>. Lines before the
  first label line do not change the map, and every key of the map is the key of a label
  line: a named label such as \<open>entry:\<close> starts no block.
\<close>

theorem build_block_map_blocks:
  "(is_label l \<and> label_of l \<noteq> [] \<and> (\<forall>x \<in> set body. \<not> label_like x) \<and>
      (rest = [] \<or> is_label (hd rest)) \<and>
      (\<forall>x \<in> set rest. is_label x \<longrightarrow> label_of x \<noteq> label_of l) \<longrightarrow>
    map_of (build_block_map (pre @ l # body @ rest)) (label_of l) = Some body) \<and>
   ((\<forall>x \<in> set pre. \<not> is_label x) \<longrightarrow>
      build_block_map (pre @ rest) = build_block_map rest) \<and>
   (\<forall>k \<in> fst ` set (build_block_map lines).
      k \<noteq> [] \<and> (\<exists>x \<in> set lines. is_label x \<and> label_of x = k))"
proof (intro conjI impI ballI)
  assume a: "is_label l \<and> label_of l \<noteq> [] \<and> (\<forall>x \<in> set body. \<not> label_like x) \<and>
      (rest = [] \<or> is_label (hd rest)) \<and>
      (\<forall>x \<in> set rest. is_label x \<longrightarrow> label_of x \<noteq> label_of l)"
  then have nl: "\<forall>x \<in> set body. \<not> is_label x" by (simp add: is_label_def)
  have keep: "filter (\<lambda>x. \<not> label_like x) body = body" using a by simp
  obtain b' cl' ci' where
    "block_loop (pre @ l # body @ rest) [] None [] = block_loop (l # body @ rest) b' cl' ci'"
    using block_loop_prefix by blast
  then show "map_of (build_block_map (pre @ l # body @ rest)) (label_of l) = Some body"
    unfolding build_block_map_def
    using a nl keep block_loop_block[of l body rest b' cl' ci'] by simp
next
  assume "\<forall>x \<in> set pre. \<not> is_label x"
  then show "build_block_map (pre @ rest) = build_block_map rest"
    unfolding build_block_map_def by (simp add: block_loop_skip)
next
  fix k assume "k \<in> fst ` set (build_block_map lines)"
  then show "k \<noteq> []" using build_block_map_keys by blast
next
  fix k assume "k \<in> fst ` set (build_block_map lines)"
  then show "\<exists>x \<in> set lines. is_label x \<and> label_of x = k" using build_block_map_keys by blast
qed

theorem build_block_map_blocks_witness:
  "is_label ''1:\<newline>'' \<and> label_of ''1:\<newline>'' = ''1'' \<and>
   map_of (build_block_map
             (block_example_pre @ ''1:\<newline>'' # block_example_body @ block_example_rest)) ''1''
     = Some block_example_body \<and>
   build_block_map (block_example_pre @ block_example_rest) = build_block_map block_example_rest \<and>
   fst ` set (build_block_map (block_example_pre @ block_example_rest)) = {''safe_100''}"
proof -
  have h1: "is_label ''1:\<newline>''" by code_simp
  have h2: "label_of ''1:\<newline>'' = ''1''" by code_simp
  have h3: "\<forall>x \<in> set block_example_body. \<not> label_like x" by code_simp
  have h4: "is_label (hd block_example_rest)" by code_simp
  have h5: "\<forall>x \<in> set block_example_rest. is_label x \<longrightarrow> label_of x \<noteq> label_of ''1:\<newline>''"
    by code_simp
  have h6: "\<forall>x \<in> set block_example_pre. \<not> is_label x" by code_simp
  have k: "fst ` set (build_block_map block_example_rest) = {''safe_100''}" by code_simp
  show ?thesis
    using build_block_map_blocks[of "''1:\<newline>''" block_example_body block_example_rest
        block_example_pre "[]"] h1 h2 h3 h4 h5 h6 k
    by simp
qed

text \<open>C2 as stated fails: \<open>entry:\<close> is a bare identifier followed by a colon and starts no
  block.\<close>

theorem build_block_map_blocks_counterexample:
  "\<not> label_like ''entry:\<newline>'' \<and>
   build_block_map [''entry:\<newline>'', ''  ret i32 1\<newline>''] = [] \<and>
   build_block_map [''1:\<newline>'', ''  br label %entry\<newline>'', ''entry:\<newline>'', ''  ret i32 1\<newline>'']
     = [(''1'', [''  br label %entry\<newline>'', ''entry:\<newline>'', ''  ret i32 1\<newline>''])]"
  by code_simp


section \<open>Selection and injection\<close>

lemma scan_loop_accum:
  "scan_loop lines t i rest cs ps =
     (case scan_loop lines t' i rest [] [] of
        Inl e \<Rightarrow> Inl e
      | Inr (new, sel) \<Rightarrow> Inr (cs @ new, ps @ select_by t new))"
proof (induction rest arbitrary: i cs ps t)
  case Nil
  then show ?case by (simp add: select_by_def)
next
  case (Cons line rest)
  show ?case
  proof (cases "parse_icmp line")
    case None
    then show ?thesis using Cons.IH[of t "Suc i" cs ps] by simp
  next
    case (Some info)
    show ?thesis
    proof (cases "score_comparison (result info) lines i")
      case (Inl e)
      with Some show ?thesis by simp
    next
      case (Inr s)
      let ?c = "icmp_info.extend info (scored_icmp.fields s i)"
      have sc: "score ?c = s"
        by (simp add: icmp_info.defs scored_icmp.defs)
      have l: "scan_loop lines t i (line # rest) cs ps =
                 scan_loop lines t (Suc i) rest (cs @ [?c]) (if t \<le> s then ps @ [?c] else ps)"
        using Some Inr by (simp add: Let_def)
      have r: "scan_loop lines t' i (line # rest) [] [] =
                 scan_loop lines t' (Suc i) rest [?c] (if t' \<le> s then [?c] else [])"
        using Some Inr by (simp add: Let_def)
      show ?thesis
        unfolding l r
        using Cons.IH[of t "Suc i" "cs @ [?c]" "if t \<le> s then ps @ [?c] else ps"]
          Cons.IH[of t' "Suc i" "[?c]" "if t' \<le> s then [?c] else []"] sc
        by (auto simp: select_by_def split: sum.splits)
    qed
  qed
qed

lemma scan_threshold:
  "scan lines t =
     (case scan lines t' of
        Inl e \<Rightarrow> Inl e
      | Inr (comparisons, sel) \<Rightarrow> Inr (comparisons, select_by t comparisons))"
  unfolding scan_def using scan_loop_accum[of lines t 0 lines "[]" "[]" t']
  by (simp split: sum.splits)

text \<open>
  C8, as the code has it. The scan does not depend on the threshold but for the selection:
  the comparisons recorded are the same, the selected ones are those whose score reaches the
  threshold, and a larger threshold selects a subset. Nothing is said of the size of the
  output.
\<close>

theorem selection_monotone:
  assumes "t1 \<le> t2"
    and "scan lines t1 = Inr (c1, p1)"
  shows "\<exists>p2. scan lines t2 = Inr (c1, p2) \<and>
           p1 = filter (\<lambda>c. t1 \<le> score c) c1 \<and>
           p2 = filter (\<lambda>c. t2 \<le> score c) c1 \<and>
           set p2 \<subseteq> set p1"
proof -
  have 1: "p1 = select_by t1 c1"
    using scan_threshold[of lines t1 t1] assms(2) by simp
  have 2: "scan lines t2 = Inr (c1, select_by t2 c1)"
    using scan_threshold[of lines t2 t1] assms(2) by simp
  have "set (select_by t2 c1) \<subseteq> set (select_by t1 c1)"
    using assms(1) by (auto simp: select_by_def)
  with 1 2 show ?thesis by (simp add: select_by_def)
qed

lemma swallow_scan_0: "scan swallow_example 0 = Inr ([swallow_a, swallow_b], [swallow_a, swallow_b])"
  by code_simp

theorem selection_monotone_witness:
  "scan swallow_example 0 = Inr ([swallow_a, swallow_b], [swallow_a, swallow_b]) \<and>
   scan swallow_example 50 = Inr ([swallow_a, swallow_b], [swallow_b]) \<and>
   set [swallow_b] \<subseteq> set [swallow_a, swallow_b]"
proof -
  have le: "(0::int) \<le> 50" by simp
  have f: "filter (\<lambda>c. 50 \<le> score c) [swallow_a, swallow_b] = [swallow_b]"
    by (simp add: swallow_a_def swallow_b_def)
  obtain p2 where p2: "scan swallow_example 50 = Inr ([swallow_a, swallow_b], p2)"
    "p2 = filter (\<lambda>c. 50 \<le> score c) [swallow_a, swallow_b]"
    "set p2 \<subseteq> set [swallow_a, swallow_b]"
    using selection_monotone[OF le swallow_scan_0] by blast
  from p2(2) f have "p2 = [swallow_b]" by simp
  with p2(1,3) swallow_scan_0 show ?thesis by simp
qed

text \<open>
  C9. Both comparisons of \<open>nested_example\<close> are selected at the default threshold, and
  the second lies between the first and the branch that consumes \<open>%a\<close>. The inner loop
  copies it: the output has one duplicate, one verification and one safe/fault pair, all
  for \<open>%a\<close>, and none for \<open>%b\<close>.
\<close>

theorem nested_comparison_copied_through:
  "map_sum id (\<lambda>(comparisons, to_protect). map (\<lambda>c. (result c, score c, line_num c)) to_protect)
     (scan nested_example 50) = Inr [(''%a'', 100, 0), (''%b'', 100, 1)] \<and>
   consumes ''%a'' (nested_example ! 2) \<and>
   map_sum id output_list (process_lines nested_example 50) = Inr
     [''  %a = icmp eq i32 %x, 1\<newline>'',
      ''  %dup_1000 = icmp eq i32 %x, 1\<newline>'',
      ''  %verify_1001 = icmp eq i1 %a, %dup_1000\<newline>'',
      ''  %b = icmp eq i32 %y, 2\<newline>'',
      ''  br i1 %verify_1001, label %safe_100, label %fault_100\<newline>\<newline>'',
      ''safe_100:\<newline>'',
      ''  br i1 %a, label %1, label %2\<newline>\<newline>'',
      ''fault_100:\<newline>'',
      ''  call void @abort()\<newline>'',
      ''  unreachable\<newline>\<newline>'',
      ''  br i1 %b, label %1, label %2\<newline>'',
      ''1:\<newline>'',
      ''  ret i32 1\<newline>'',
      ''2:\<newline>'',
      ''  ret i32 0\<newline>'']"
  by code_simp

text \<open>
  C8 as stated fails for the output size. At threshold 0 the first comparison of
  \<open>swallow_example\<close> is selected too; it has no consuming branch, so the inner loop copies
  the rest of the input, the second comparison and its branch included. The output has 9
  chunks and 9 lines of text at threshold 0, and 14 chunks and 17 lines at threshold 50.
\<close>

theorem output_size_not_monotone:
  "(0::int) \<le> 50 \<and>
   map_sum id (\<lambda>(comparisons, to_protect). map result to_protect) (scan swallow_example 0)
     = Inr [''%a'', ''%b''] \<and>
   map_sum id (\<lambda>(comparisons, to_protect). map result to_protect) (scan swallow_example 50)
     = Inr [''%b''] \<and>
   map_sum id (length \<circ> output_list) (process_lines swallow_example 0) = Inr 9 \<and>
   map_sum id (length \<circ> output_list) (process_lines swallow_example 50) = Inr 14 \<and>
   map_sum id (length \<circ> readlines) (process_file (concat swallow_example) 0) = Inr 9 \<and>
   map_sum id (length \<circ> readlines) (process_file (concat swallow_example) 50) = Inr 17"
  by code_simp

text \<open>
  C7 at a failing input. The second line is a branch that has lost its targets: it holds
  \<open>br i1\<close> and \<open>%c\<close> and has three tokens. \<open>parse_icmp\<close> turns such a line down,
  but \<open>score_comparison\<close> reads its fifth token, and the run ends with \<open>IndexError\<close>
  instead of an output. The unranked tool reads the same token in its inner loop.
\<close>

theorem short_branch_raises:
  "parse_icmp (short_branch_example ! 1) = None \<and>
   process_lines short_branch_example 50 = Inl IndexError \<and>
   process_file (concat short_branch_example) 50 = Inl IndexError \<and>
   process_lines_unranked short_branch_example = Inl IndexError"
  by code_simp


section \<open>The abort declaration\<close>

lemma emitted_not_decl:
  "count_list (shadow_lines info line n) abort_decl = count_list [line] abort_decl"
  "count_list (split_lines info vreg tlab flab b) abort_decl = 0"
  by (simp_all add: shadow_lines_def split_lines_def abort_decl_def)

lemma decl_not_branch: "\<not> consumes r abort_decl"
proof -
  have "\<not> str_in ''br i1'' abort_decl" by code_simp
  then show ?thesis by (simp add: consumes_def)
qed

lemma inject_decl_count:
  "inject_outer select i ls st = Inr st' \<Longrightarrow>
     count_list (output_list st') abort_decl =
       count_list (output_list st) abort_decl + count_list ls abort_decl +
       (if added_abort st' \<and> \<not> added_abort st then 1 else 0) \<and>
     (added_abort st \<longrightarrow> added_abort st')"
  "inject_inner select info vreg i ls st = Inr st' \<Longrightarrow>
     count_list (output_list st') abort_decl =
       count_list (output_list st) abort_decl + count_list ls abort_decl +
       (if added_abort st' \<and> \<not> added_abort st then 1 else 0) \<and>
     (added_abort st \<longrightarrow> added_abort st')"
proof (induction select i ls st and select info vreg i ls st
       arbitrary: st' and st' rule: inject_outer_inject_inner.induct)
  case (1 select i st)
  then show ?case by auto
next
  case (2 select i line rest st)
  show ?case
  proof (cases "str_in ''target triple'' line \<and> \<not> added_abort st")
    case True
    let ?st1 = "(emit [line, abort_decl] st)\<lparr>added_abort := True\<rparr>"
    have "inject_outer select (Suc i) rest ?st1 = Inr st'" using 2(4) True by simp
    from 2(1)[OF True this] True show ?thesis by (auto simp: emit_def)
  next
    case False
    show ?thesis
    proof (cases "select i line")
      case (Inl e)
      with False 2(4) show ?thesis by auto
    next
      case (Inr sel)
      show ?thesis
      proof (cases sel)
        case None
        have "inject_outer select (Suc i) rest (emit [line] st) = Inr st'"
          using 2(4) False Inr None by auto
        from 2(2)[OF False Inr None this] show ?thesis by (auto simp: emit_def)
      next
        case (Some info)
        let ?st1 = "(emit (shadow_lines info line (register_counter st)) st)
                  \<lparr>register_counter := register_counter st + 2\<rparr>"
        have "inject_inner select info (verify_reg (register_counter st + 1)) (Suc i) rest ?st1
                = Inr st'"
          using 2(4) False Inr Some by auto
        from 2(3)[OF False Inr Some this] show ?thesis
          by (auto simp: emit_def emitted_not_decl)
      qed
    qed
  qed
next
  case (3 select info vreg i st)
  then show ?case by auto
next
  case (4 select info vreg i line rest st)
  show ?case
  proof (cases "consumes (result info) line")
    case True
    then have nd: "line \<noteq> abort_decl" using decl_not_branch by auto
    have len: "\<not> length (str_split line) \<le> 6" using 4(3) True by (auto simp: Let_def)
    let ?st1 = "(emit (split_lines info vreg (str_rstrip (CHR '','') (str_split line ! 4))
                          (str_split line ! 6) (block_counter st)) st)
                   \<lparr>block_counter := block_counter st + 1\<rparr>"
    have "inject_outer select (Suc i) rest ?st1 = Inr st'"
      using 4(3) True len by (simp add: Let_def)
    from 4(1)[OF True refl len this] nd show ?thesis
      by (auto simp: emit_def emitted_not_decl)
  next
    case False
    have "inject_inner select info vreg (Suc i) rest (emit [line] st) = Inr st'"
      using 4(3) False by simp
    from 4(2)[OF False this] show ?thesis by (auto simp: emit_def)
  qed
qed

lemma inject_no_triple:
  "inject_outer select i ls st = Inr st' \<Longrightarrow> \<forall>l \<in> set ls. \<not> str_in ''target triple'' l \<Longrightarrow>
     added_abort st' = added_abort st"
  "inject_inner select info vreg i ls st = Inr st' \<Longrightarrow>
     \<forall>l \<in> set ls. \<not> str_in ''target triple'' l \<Longrightarrow> added_abort st' = added_abort st"
proof (induction select i ls st and select info vreg i ls st
       arbitrary: st' and st' rule: inject_outer_inject_inner.induct)
  case (1 select i st)
  then show ?case by auto
next
  case (2 select i line rest st)
  have nt: "\<not> (str_in ''target triple'' line \<and> \<not> added_abort st)" using 2(5) by simp
  have r: "\<forall>l \<in> set rest. \<not> str_in ''target triple'' l" using 2(5) by simp
  show ?case
  proof (cases "select i line")
    case (Inl e)
    with nt 2(4) show ?thesis by auto
  next
    case (Inr sel)
    show ?thesis
    proof (cases sel)
      case None
      have "inject_outer select (Suc i) rest (emit [line] st) = Inr st'"
        using 2(4) nt Inr None by auto
      from 2(2)[OF nt Inr None this r] show ?thesis by (simp add: emit_def)
    next
      case (Some info)
      let ?st1 = "(emit (shadow_lines info line (register_counter st)) st)
                \<lparr>register_counter := register_counter st + 2\<rparr>"
      have "inject_inner select info (verify_reg (register_counter st + 1)) (Suc i) rest ?st1
              = Inr st'"
        using 2(4) nt Inr Some by auto
      from 2(3)[OF nt Inr Some this r] show ?thesis by (simp add: emit_def)
    qed
  qed
next
  case (3 select info vreg i st)
  then show ?case by auto
next
  case (4 select info vreg i line rest st)
  have r: "\<forall>l \<in> set rest. \<not> str_in ''target triple'' l" using 4(4) by simp
  show ?case
  proof (cases "consumes (result info) line")
    case True
    have len: "\<not> length (str_split line) \<le> 6" using 4(3) True by (auto simp: Let_def)
    let ?st1 = "(emit (split_lines info vreg (str_rstrip (CHR '','') (str_split line ! 4))
                          (str_split line ! 6) (block_counter st)) st)
                   \<lparr>block_counter := block_counter st + 1\<rparr>"
    have "inject_outer select (Suc i) rest ?st1 = Inr st'"
      using 4(3) True len by (simp add: Let_def)
    from 4(1)[OF True refl len this r] show ?thesis by (simp add: emit_def)
  next
    case False
    have "inject_inner select info vreg (Suc i) rest (emit [line] st) = Inr st'"
      using 4(3) False by simp
    from 4(2)[OF False this r] show ?thesis by (simp add: emit_def)
  qed
qed

lemma inject_output_prefix:
  "inject_outer select i ls st = Inr st' \<Longrightarrow> prefix (output_list st) (output_list st')"
  "inject_inner select info vreg i ls st = Inr st' \<Longrightarrow> prefix (output_list st) (output_list st')"
proof (induction select i ls st and select info vreg i ls st
       arbitrary: st' and st' rule: inject_outer_inject_inner.induct)
  case (1 select i st)
  then show ?case by auto
next
  case (2 select i line rest st)
  show ?case
  proof (cases "str_in ''target triple'' line \<and> \<not> added_abort st")
    case True
    let ?st1 = "(emit [line, abort_decl] st)\<lparr>added_abort := True\<rparr>"
    have "inject_outer select (Suc i) rest ?st1 = Inr st'" using 2(4) True by simp
    from 2(1)[OF True this] show ?thesis by (auto simp: emit_def dest: append_prefixD)
  next
    case False
    show ?thesis
    proof (cases "select i line")
      case (Inl e)
      with False 2(4) show ?thesis by auto
    next
      case (Inr sel)
      show ?thesis
      proof (cases sel)
        case None
        have "inject_outer select (Suc i) rest (emit [line] st) = Inr st'"
          using 2(4) False Inr None by auto
        from 2(2)[OF False Inr None this] show ?thesis
          by (auto simp: emit_def dest: append_prefixD)
      next
        case (Some info)
        let ?st1 = "(emit (shadow_lines info line (register_counter st)) st)
                  \<lparr>register_counter := register_counter st + 2\<rparr>"
        have "inject_inner select info (verify_reg (register_counter st + 1)) (Suc i) rest ?st1
                = Inr st'"
          using 2(4) False Inr Some by auto
        from 2(3)[OF False Inr Some this] show ?thesis
          by (auto simp: emit_def dest: append_prefixD)
      qed
    qed
  qed
next
  case (3 select info vreg i st)
  then show ?case by auto
next
  case (4 select info vreg i line rest st)
  show ?case
  proof (cases "consumes (result info) line")
    case True
    have len: "\<not> length (str_split line) \<le> 6" using 4(3) True by (auto simp: Let_def)
    let ?st1 = "(emit (split_lines info vreg (str_rstrip (CHR '','') (str_split line ! 4))
                          (str_split line ! 6) (block_counter st)) st)
                   \<lparr>block_counter := block_counter st + 1\<rparr>"
    have "inject_outer select (Suc i) rest ?st1 = Inr st'"
      using 4(3) True len by (simp add: Let_def)
    from 4(1)[OF True refl len this] show ?thesis
      by (auto simp: emit_def dest: append_prefixD)
  next
    case False
    have "inject_inner select info vreg (Suc i) rest (emit [line] st) = Inr st'"
      using 4(3) False by simp
    from 4(2)[OF False this] show ?thesis by (auto simp: emit_def dest: append_prefixD)
  qed
qed

lemma inject_outer_plain:
  "\<forall>k < length pre. select (i + k) (pre ! k) = Inr None \<and> \<not> str_in ''target triple'' (pre ! k) \<Longrightarrow>
     inject_outer select i (pre @ rest) st = inject_outer select (i + length pre) rest (emit pre st)"
proof (induction pre arbitrary: i st)
  case Nil
  then show ?case by (simp add: emit_def)
next
  case (Cons x pre)
  have x: "select i x = Inr None" "\<not> str_in ''target triple'' x"
    using Cons.prems by force+
  have "\<forall>k < length pre. select (Suc i + k) (pre ! k) = Inr None \<and>
          \<not> str_in ''target triple'' (pre ! k)"
  proof (intro allI impI)
    fix k assume "k < length pre"
    then have "Suc k < length (x # pre)" by simp
    from Cons.prems[rule_format, OF this] show "select (Suc i + k) (pre ! k) = Inr None \<and>
          \<not> str_in ''target triple'' (pre ! k)" by simp
  qed
  from Cons.IH[OF this, of "emit [x] st"] x show ?case by (simp add: emit_def)
qed

lemma scan_loop_line_nums:
  "scan_loop lines t i rest [] [] = Inr (new, sel) \<Longrightarrow>
     \<forall>c \<in> set new. i \<le> line_num c \<and> line_num c < i + length rest \<and>
       parse_icmp (rest ! (line_num c - i)) \<noteq> None"
proof (induction rest arbitrary: i new sel)
  case Nil
  then show ?case by simp
next
  case (Cons line rest)
  have shift: "(line # rest) ! (n - i) = rest ! (n - Suc i)" if "Suc i \<le> n" for n
  proof -
    from that have "n - i = Suc (n - Suc i)" by arith
    then show ?thesis by simp
  qed
  show ?case
  proof (cases "parse_icmp line")
    case None
    then have "scan_loop lines t (Suc i) rest [] [] = Inr (new, sel)" using Cons.prems by simp
    from Cons.IH[OF this] show ?thesis using shift by auto
  next
    case (Some info)
    show ?thesis
    proof (cases "score_comparison (result info) lines i")
      case (Inl e)
      with Some Cons.prems show ?thesis by simp
    next
      case (Inr s)
      let ?c = "icmp_info.extend info (scored_icmp.fields s i)"
      have ln: "line_num ?c = i" by (simp add: icmp_info.defs scored_icmp.defs)
      have "scan_loop lines t (Suc i) rest [?c] (if t \<le> s then [?c] else []) = Inr (new, sel)"
        using Some Inr Cons.prems by (auto simp: Let_def)
      then obtain new' sel' where n: "scan_loop lines t (Suc i) rest [] [] = Inr (new', sel')"
        and new: "new = [?c] @ new'"
        using scan_loop_accum[of lines t "Suc i" rest "[?c]" "if t \<le> s then [?c] else []" t]
        by (auto split: sum.splits)
      from Cons.IH[OF n] have "\<forall>c \<in> set new'. i \<le> line_num c \<and>
          line_num c < i + length (line # rest) \<and>
          parse_icmp ((line # rest) ! (line_num c - i)) \<noteq> None"
        using shift by auto
      then show ?thesis using new ln Some by auto
    qed
  qed
qed

lemma scan_selected_parsed:
  assumes "scan lines t = Inr (comparisons, to_protect)"
  shows "\<forall>c \<in> set to_protect. line_num c < length lines \<and>
           parse_icmp (lines ! line_num c) \<noteq> None"
proof -
  have "to_protect = select_by t comparisons"
    using scan_threshold[of lines t t] assms by simp
  then have "set to_protect \<subseteq> set comparisons" by (auto simp: select_by_def)
  moreover have "\<forall>c \<in> set comparisons. 0 \<le> line_num c \<and> line_num c < 0 + length lines \<and>
       parse_icmp (lines ! (line_num c - 0)) \<noteq> None"
    using assms scan_loop_line_nums[of lines t 0 lines comparisons to_protect]
    by (simp add: scan_def)
  ultimately show ?thesis by auto
qed

lemma readlines_from_newline:
  "l \<in> set (readlines_from cur src) \<Longrightarrow> CHR 0x0A \<notin> set cur \<Longrightarrow>
     CHR 0x0A \<notin> set (butlast l)"
proof (induction src arbitrary: cur)
  case Nil
  then show ?case by (auto split: if_splits dest: in_set_butlastD)
next
  case (Cons c cs)
  show ?case
  proof (cases "c = CHR 0x0A")
    case True
    then consider "l = cur @ [c]" | "l \<in> set (readlines_from [] cs)"
      using Cons.prems(1) by auto
    then show ?thesis
    proof cases
      case 1
      then show ?thesis using Cons.prems(2) by simp
    next
      case 2
      then show ?thesis using Cons.IH[of "[]"] by simp
    qed
  next
    case False
    then have "l \<in> set (readlines_from (cur @ [c]) cs)" using Cons.prems(1) by simp
    then show ?thesis using Cons.IH[of "cur @ [c]"] Cons.prems(2) False by simp
  qed
qed

lemma decl_not_read: "abort_decl \<notin> set (readlines text)"
proof
  assume "abort_decl \<in> set (readlines text)"
  then have "CHR 0x0A \<notin> set (butlast abort_decl)"
    using readlines_from_newline[of abort_decl "[]" "text"] by (simp add: readlines_def)
  then show False by (simp add: abort_decl_def)
qed

lemma inject_declaration:
  assumes run: "inject_outer select 0 lines init_state = Inr st"
    and nodecl: "abort_decl \<notin> set lines"
  shows "count_list (output_list st) abort_decl = (if added_abort st then 1 else 0)"
    and "(\<forall>l \<in> set lines. \<not> str_in ''target triple'' l) \<Longrightarrow> \<not> added_abort st"
    and "lines = pre @ t # post \<Longrightarrow> str_in ''target triple'' t \<Longrightarrow>
         \<forall>k < length pre. select k (pre ! k) = Inr None \<and> \<not> str_in ''target triple'' (pre ! k) \<Longrightarrow>
         added_abort st \<and> prefix (pre @ [t, abort_decl]) (output_list st)"
proof -
  have c0: "count_list lines abort_decl = 0" using nodecl by (simp add: count_list_0_iff)
  show "count_list (output_list st) abort_decl = (if added_abort st then 1 else 0)"
    using inject_decl_count(1)[OF run] c0 by (simp add: init_state_def)
  show "\<not> added_abort st" if "\<forall>l \<in> set lines. \<not> str_in ''target triple'' l"
    using inject_no_triple(1)[OF run that] by (simp add: init_state_def)
  show "added_abort st \<and> prefix (pre @ [t, abort_decl]) (output_list st)"
    if l: "lines = pre @ t # post" and t: "str_in ''target triple'' t"
      and p: "\<forall>k < length pre. select k (pre ! k) = Inr None \<and>
                \<not> str_in ''target triple'' (pre ! k)"
  proof -
    let ?st1 = "(emit [t, abort_decl] (emit pre init_state))\<lparr>added_abort := True\<rparr>"
    have "inject_outer select 0 (pre @ t # post) init_state =
            inject_outer select (0 + length pre) (t # post) (emit pre init_state)"
      using inject_outer_plain[of pre select 0 "t # post" init_state] p by simp
    also have "\<dots> = inject_outer select (Suc (length pre)) post ?st1"
      using t by (simp add: emit_def init_state_def)
    finally have r: "inject_outer select (Suc (length pre)) post ?st1 = Inr st"
      using run l by simp
    have "added_abort st" using inject_decl_count(1)[OF r] by simp
    moreover have "prefix (pre @ [t, abort_decl]) (output_list st)"
      using inject_output_prefix(1)[OF r] by (simp add: emit_def init_state_def)
    ultimately show ?thesis by simp
  qed
qed

text \<open>
  C3, as the code has it, for both tools. The declaration is written after a line that holds
  \<open>target triple\<close> and nowhere else, so the output holds it at most once. An input with no
  such line gets none: nothing declares \<open>abort\<close> the first time it is needed. When the
  first such line comes before every comparison, the declaration is written once, right
  after that line.
\<close>

theorem abort_declaration_placement:
  assumes "process_lines (readlines text) threshold = Inr st \<or>
           process_lines_unranked (readlines text) = Inr st"
  shows "count_list (output_list st) abort_decl \<le> 1 \<and>
    ((\<forall>l \<in> set (readlines text). \<not> str_in ''target triple'' l) \<longrightarrow>
       count_list (output_list st) abort_decl = 0) \<and>
    (readlines text = pre @ t # post \<and> str_in ''target triple'' t \<and>
       (\<forall>l \<in> set pre. \<not> str_in ''target triple'' l \<and> parse_icmp l = None) \<longrightarrow>
       count_list (output_list st) abort_decl = 1 \<and>
       prefix (pre @ [t, abort_decl]) (output_list st))"
proof -
  obtain select where run: "inject_outer select 0 (readlines text) init_state = Inr st"
    and sel: "\<forall>k < length (readlines text).
                parse_icmp (readlines text ! k) = None \<longrightarrow> select k (readlines text ! k) = Inr None"
  proof -
    from assms show ?thesis
    proof
      assume a: "process_lines (readlines text) threshold = Inr st"
      then obtain cs ps where sc: "scan (readlines text) threshold = Inr (cs, ps)"
        and r: "inject_outer (select_ranked ps) 0 (readlines text) init_state = Inr st"
        by (auto simp: process_lines_def split: sum.splits)
      have "\<forall>k < length (readlines text). parse_icmp (readlines text ! k) = None \<longrightarrow>
              select_ranked ps k (readlines text ! k) = Inr None"
        using scan_selected_parsed[OF sc] by (auto simp: select_ranked_def)
      with r show ?thesis using that by blast
    next
      assume "process_lines_unranked (readlines text) = Inr st"
      then have "inject_outer select_all 0 (readlines text) init_state = Inr st"
        by (simp add: process_lines_unranked_def)
      then show ?thesis using that[of select_all] by (simp add: select_all_def)
    qed
  qed
  note d = inject_declaration[OF run decl_not_read]
  have 1: "count_list (output_list st) abort_decl \<le> 1" using d(1) by simp
  have 2: "count_list (output_list st) abort_decl = 0"
    if "\<forall>l \<in> set (readlines text). \<not> str_in ''target triple'' l"
    using d(1) d(2)[OF that] by simp
  have 3: "count_list (output_list st) abort_decl = 1 \<and>
       prefix (pre @ [t, abort_decl]) (output_list st)"
    if h: "readlines text = pre @ t # post \<and> str_in ''target triple'' t \<and>
       (\<forall>l \<in> set pre. \<not> str_in ''target triple'' l \<and> parse_icmp l = None)"
  proof -
    have "\<forall>k < length pre. select k (pre ! k) = Inr None \<and>
            \<not> str_in ''target triple'' (pre ! k)"
    proof (intro allI impI)
      fix k assume k: "k < length pre"
      then have "readlines text ! k = pre ! k" "k < length (readlines text)"
        using h by (simp_all add: nth_append)
      moreover have "pre ! k \<in> set pre" using k by simp
      ultimately show "select k (pre ! k) = Inr None \<and> \<not> str_in ''target triple'' (pre ! k)"
        using sel h by metis
    qed
    from d(3)[OF _ _ this, of t post] h d(1) show ?thesis by simp
  qed
  from 1 2 3 show ?thesis by blast
qed

lemma triple_run: "process_lines (readlines triple_text) 50 = Inr triple_out"
  by code_simp

lemma gate_run: "process_lines (readlines (concat gate_example)) 50 = Inr gate_out"
  by code_simp

theorem abort_declaration_placement_witness:
  "process_lines (readlines triple_text) 50 = Inr triple_out \<and>
   count_list (output_list triple_out) abort_decl = 1 \<and>
   prefix [''target triple = x86_64-pc-linux-gnu\<newline>'', abort_decl] (output_list triple_out) \<and>
   process_lines (readlines (concat gate_example)) 50 = Inr gate_out \<and>
   count_list (output_list gate_out) abort_decl = 0"
proof -
  have l1: "readlines triple_text =
              [] @ ''target triple = x86_64-pc-linux-gnu\<newline>'' # gate_example"
    by code_simp
  have t1: "str_in ''target triple'' ''target triple = x86_64-pc-linux-gnu\<newline>''"
    by code_simp
  have n2: "\<forall>l \<in> set (readlines (concat gate_example)). \<not> str_in ''target triple'' l"
    by code_simp
  show ?thesis
    using abort_declaration_placement[of triple_text 50 triple_out "[]"
        "''target triple = x86_64-pc-linux-gnu\<newline>''" gate_example]
      abort_declaration_placement[of "concat gate_example" 50 gate_out]
      triple_run gate_run l1 t1 n2
    by simp
qed

text \<open>C3 as stated fails: without a target triple the output calls \<open>abort\<close> and never
  declares it, in either tool.\<close>

theorem abort_declaration_missing:
  "map_sum id (\<lambda>st. (count_list (output_list st) ''  call void @abort()\<newline>'',
                     count_list (output_list st) abort_decl,
                     str_in ''declare'' (concat (output_list st))))
     (process_lines (readlines (concat gate_example)) 50) = Inr (1, 0, False) \<and>
   map_sum id (\<lambda>st. (count_list (output_list st) ''  call void @abort()\<newline>'',
                     count_list (output_list st) abort_decl,
                     str_in ''declare'' (concat (output_list st))))
     (process_lines_unranked (readlines (concat gate_example))) = Inr (1, 0, False)"
  by code_simp


section \<open>The verification pipeline\<close>

lemma verify_protected_ir_ok:
  "fst (verify_protected_ir res p) \<longleftrightarrow> abort_calls p > 0 \<and> dup_ids p > 0 \<and> verify_ids p > 0"
  by (simp add: verify_protected_ir_def verify_abort_present_def verify_duplicates_present_def
      verify_verification_present_def abort_calls_def dup_ids_def verify_ids_def Let_def)

lemma verify_protected_ir_keeps:
  "abort_calls_optimized (snd (verify_protected_ir res p)) = abort_calls_optimized res"
  by (simp add: verify_protected_ir_def verify_abort_present_def verify_duplicates_present_def
      verify_verification_present_def Let_def)

lemma verify_optimized_ir_ok:
  "fst (verify_optimized_ir res p) \<longleftrightarrow> abort_calls p > 0"
  "abort_calls_optimized (snd (verify_optimized_ir res p)) = abort_calls p"
  by (simp_all add: verify_optimized_ir_def verify_abort_present_def
      verify_duplicates_present_def abort_calls_def Let_def)

text \<open>
  When the original unit has a line that counts, the pipeline passes exactly when the
  protected unit holds an abort call, a duplicate identifier and a verify identifier, the
  optimizer returns, and its output holds an abort call. Surviving duplicates play no part.
\<close>

lemma run_verification_pass_iff:
  assumes "count_lines original_ir > 0"
  shows "(\<exists>res. run_verification opt original_ir protected_ir = Inr (True, res)) \<longleftrightarrow>
    abort_calls protected_ir > 0 \<and> dup_ids protected_ir > 0 \<and> verify_ids protected_ir > 0 \<and>
    (\<exists>optimized_ir. opt protected_ir = Some optimized_ir \<and> abort_calls optimized_ir > 0)"
proof -
  obtain ok1 res1 where v1: "verify_protected_ir init_results protected_ir = (ok1, res1)"
    by (cases "verify_protected_ir init_results protected_ir")
  have ok1: "ok1 \<longleftrightarrow> abort_calls protected_ir > 0 \<and> dup_ids protected_ir > 0 \<and>
                verify_ids protected_ir > 0"
    using verify_protected_ir_ok[of init_results protected_ir] v1 by simp
  show ?thesis
  proof (cases ok1)
    case False
    with v1 ok1 show ?thesis by (auto simp: run_verification_def)
  next
    case t1: True
    show ?thesis
    proof (cases "opt protected_ir")
      case None
      with v1 t1 show ?thesis by (auto simp: run_verification_def)
    next
      case (Some o_ir)
      obtain ok2 res2 where v2: "verify_optimized_ir res1 o_ir = (ok2, res2)"
        by (cases "verify_optimized_ir res1 o_ir")
      have ok2: "ok2 \<longleftrightarrow> abort_calls o_ir > 0" "abort_calls_optimized res2 = abort_calls o_ir"
        using verify_optimized_ir_ok[of res1 o_ir] v2 by simp_all
      show ?thesis
      proof (cases ok2)
        case False
        with v1 t1 Some v2 ok1 ok2 show ?thesis by (auto simp: run_verification_def)
      next
        case True
        with v1 t1 Some v2 ok1 ok2 assms show ?thesis
          by (auto simp: run_verification_def print_summary_def Let_def)
      qed
    qed
  qed
qed

text \<open>An optimizer output without an abort call fails the run, with
  \<open>abort_calls_optimized\<close> at 0.\<close>

lemma run_verification_no_abort:
  assumes "opt protected_ir = Some optimized_ir" and "abort_calls optimized_ir = 0"
  shows "\<exists>res. run_verification opt original_ir protected_ir = Inr (False, res) \<and>
           abort_calls_optimized res = 0"
proof -
  obtain ok1 res1 where v1: "verify_protected_ir init_results protected_ir = (ok1, res1)"
    by (cases "verify_protected_ir init_results protected_ir")
  have k: "abort_calls_optimized res1 = 0"
    using verify_protected_ir_keeps[of init_results protected_ir] v1
    by (simp add: init_results_def)
  obtain ok2 res2 where v2: "verify_optimized_ir res1 optimized_ir = (ok2, res2)"
    by (cases "verify_optimized_ir res1 optimized_ir")
  have "\<not> ok2" "abort_calls_optimized res2 = 0"
    using verify_optimized_ir_ok[of res1 optimized_ir] v2 assms(2) by simp_all
  with v1 v2 k assms(1) show ?thesis
    by (cases ok1) (auto simp: run_verification_def)
qed

text \<open>
  C5 at a failing input. The protected unit holds every artifact and the optimizer keeps the
  abort call, so the claim asks for a pass; the original unit is empty, \<open>print_summary\<close>
  divides by its size, and the run ends with \<open>ZeroDivisionError\<close> before
  \<open>verification_passed\<close> is set.
\<close>

theorem run_verification_empty_original:
  "count_lines [] = 0 \<and>
   abort_calls protected_example = 1 \<and> dup_ids protected_example = 2 \<and>
   verify_ids protected_example = 2 \<and>
   identity_opt protected_example = Some protected_example \<and>
   run_verification identity_opt [] protected_example = Inl ZeroDivisionError"
  by code_simp


section \<open>Lines that pass through\<close>

lemma plain_lines_Cons:
  "subseq (plain_lines rest) ys \<Longrightarrow> subseq (plain_lines (line # rest)) (line # ys)"
  by (auto simp: plain_lines_def intro: list_emb_Cons)

lemma inject_frame:
  "inject_outer select i ls st = Inr st' \<Longrightarrow>
     \<exists>ys. output_list st' = output_list st @ ys \<and> subseq (plain_lines ls) ys"
  "inject_inner select info vreg i ls st = Inr st' \<Longrightarrow>
     \<exists>ys. output_list st' = output_list st @ ys \<and> subseq (plain_lines ls) ys"
proof (induction select i ls st and select info vreg i ls st
       arbitrary: st' and st' rule: inject_outer_inject_inner.induct)
  case (1 select i st)
  then show ?case by (auto simp: plain_lines_def)
next
  case (2 select i line rest st)
  show ?case
  proof (cases "str_in ''target triple'' line \<and> \<not> added_abort st")
    case True
    let ?st1 = "(emit [line, abort_decl] st)\<lparr>added_abort := True\<rparr>"
    have "inject_outer select (Suc i) rest ?st1 = Inr st'" using 2(4) True by simp
    from 2(1)[OF True this] obtain ys where
      ys: "output_list st' = output_list ?st1 @ ys" "subseq (plain_lines rest) ys" by blast
    have "subseq (plain_lines (line # rest)) (line # abort_decl # ys)"
      using ys(2) by (intro plain_lines_Cons list_emb_Cons)
    with ys(1) show ?thesis by (auto simp: emit_def)
  next
    case False
    show ?thesis
    proof (cases "select i line")
      case (Inl e)
      with False 2(4) show ?thesis by auto
    next
      case (Inr sel)
      show ?thesis
      proof (cases sel)
        case None
        have "inject_outer select (Suc i) rest (emit [line] st) = Inr st'"
          using 2(4) False Inr None by auto
        from 2(2)[OF False Inr None this] obtain ys where
          ys: "output_list st' = output_list (emit [line] st) @ ys"
            "subseq (plain_lines rest) ys" by blast
        have "subseq (plain_lines (line # rest)) (line # ys)"
          using ys(2) by (rule plain_lines_Cons)
        with ys(1) show ?thesis by (auto simp: emit_def)
      next
        case (Some info)
        let ?st1 = "(emit (shadow_lines info line (register_counter st)) st)
                  \<lparr>register_counter := register_counter st + 2\<rparr>"
        have "inject_inner select info (verify_reg (register_counter st + 1)) (Suc i) rest ?st1
                = Inr st'"
          using 2(4) False Inr Some by auto
        from 2(3)[OF False Inr Some this] obtain ys where
          ys: "output_list st' = output_list ?st1 @ ys" "subseq (plain_lines rest) ys" by blast
        obtain d v where sh: "shadow_lines info line (register_counter st) = [line, d, v]"
          by (simp add: shadow_lines_def)
        have "subseq (plain_lines (line # rest)) (line # d # v # ys)"
          using ys(2) by (intro plain_lines_Cons list_emb_Cons)
        with ys(1) sh show ?thesis by (auto simp: emit_def)
      qed
    qed
  qed
next
  case (3 select info vreg i st)
  then show ?case by (auto simp: plain_lines_def)
next
  case (4 select info vreg i line rest st)
  show ?case
  proof (cases "consumes (result info) line")
    case True
    have len: "\<not> length (str_split line) \<le> 6" using 4(3) True by (auto simp: Let_def)
    let ?sp = "split_lines info vreg (str_rstrip (CHR '','') (str_split line ! 4))
                          (str_split line ! 6) (block_counter st)"
    let ?st1 = "(emit ?sp st)\<lparr>block_counter := block_counter st + 1\<rparr>"
    have "inject_outer select (Suc i) rest ?st1 = Inr st'"
      using 4(3) True len by (simp add: Let_def)
    from 4(1)[OF True refl len this] obtain ys where
      ys: "output_list st' = output_list ?st1 @ ys" "subseq (plain_lines rest) ys" by blast
    have "plain_lines (line # rest) = plain_lines rest"
      using True by (simp add: plain_lines_def consumes_def)
    then have "subseq (plain_lines (line # rest)) (?sp @ ys)"
      using ys(2) by (simp add: list_emb_append2)
    with ys(1) show ?thesis by (auto simp: emit_def)
  next
    case False
    have "inject_inner select info vreg (Suc i) rest (emit [line] st) = Inr st'"
      using 4(3) False by simp
    from 4(2)[OF False this] obtain ys where
      ys: "output_list st' = output_list (emit [line] st) @ ys"
        "subseq (plain_lines rest) ys" by blast
    have "subseq (plain_lines (line # rest)) (line # ys)"
      using ys(2) by (rule plain_lines_Cons)
    with ys(1) show ?thesis by (auto simp: emit_def)
  qed
qed

text \<open>Whenever either tool returns, the lines that hold no conditional branch stand in the
  output, as they are and in their order.\<close>

lemma process_lines_frame:
  assumes "process_lines lines threshold = Inr st \<or> process_lines_unranked lines = Inr st"
  shows "subseq (plain_lines lines) (output_list st)"
proof -
  obtain select where "inject_outer select 0 lines init_state = Inr st"
    using assms
    by (auto simp: process_lines_def process_lines_unranked_def split: sum.splits)
  from inject_frame(1)[OF this] show ?thesis by (auto simp: init_state_def)
qed

text \<open>The ranked tool returns when every line that holds \<open>br i1\<close> has at least seven
  tokens and the unit has fewer labels than the resolver has frames; the unranked tool, which
  resolves nothing, needs only the tokens.\<close>

lemma score_branch_returns:
  assumes "length parts > 6" and "unvisited blocks {} < resolver_frames"
  shows "\<exists>s. score_branch parts blocks = Inr s"
proof -
  obtain tr tv where t: "find_return_value resolver_frames (branch_target (parts ! 4)) blocks {} =
      Inr (tr, tv)"
    using frv_returns(1)[OF assms(2)] by blast
  obtain fr fv where f: "find_return_value resolver_frames (branch_target (parts ! 6)) blocks {} =
      Inr (fr, fv)"
    using frv_returns(1)[OF assms(2)] by blast
  show ?thesis
    using assms(1) t f by (simp add: score_branch_def Let_def del: find_return_value.simps)
qed

lemma score_loop_returns:
  "\<forall>l \<in> set lines. str_in ''br i1'' l \<longrightarrow> length (str_split l) > 6 \<Longrightarrow>
   unvisited blocks {} < resolver_frames \<Longrightarrow>
   \<forall>j \<in> set js. j < length lines \<Longrightarrow>
     \<exists>s. score_loop c lines blocks js = Inr s"
proof (induction js)
  case Nil
  then show ?case by simp
next
  case (Cons j js)
  show ?case
  proof (cases "consumes c (lines ! j)")
    case True
    then have "length (str_split (lines ! j)) > 6"
      using Cons.prems by (simp add: consumes_def)
    then show ?thesis using True score_branch_returns[OF _ Cons.prems(2)] by simp
  next
    case False
    then show ?thesis using Cons by simp
  qed
qed

lemma score_comparison_returns:
  "\<forall>l \<in> set lines. str_in ''br i1'' l \<longrightarrow> length (str_split l) > 6 \<Longrightarrow>
   unvisited (build_block_map lines) {} < resolver_frames \<Longrightarrow>
     \<exists>s. score_comparison c lines i = Inr s"
  unfolding score_comparison_def by (rule score_loop_returns) auto

lemma scan_loop_returns:
  "\<forall>l \<in> set lines. str_in ''br i1'' l \<longrightarrow> length (str_split l) > 6 \<Longrightarrow>
   unvisited (build_block_map lines) {} < resolver_frames \<Longrightarrow>
     \<exists>r. scan_loop lines t i rest cs ps = Inr r"
proof (induction rest arbitrary: i cs ps)
  case Nil
  then show ?case by simp
next
  case (Cons line rest)
  show ?case
  proof (cases "parse_icmp line")
    case None
    then show ?thesis using Cons by simp
  next
    case (Some info)
    obtain s where "score_comparison (result info) lines i = Inr s"
      using score_comparison_returns[OF Cons.prems] by blast
    then show ?thesis using Some Cons by (simp add: Let_def)
  qed
qed

lemma select_ranked_returns: "\<exists>r. select_ranked ps i line = Inr r"
proof (cases "i \<in> set (map line_num ps)")
  case True
  then have "find (\<lambda>c. line_num c = i) ps \<noteq> None" by (auto simp: find_None_iff)
  then show ?thesis using True by (auto simp: select_ranked_def)
next
  case False
  then show ?thesis by (simp add: select_ranked_def)
qed

lemma inject_returns:
  "\<forall>i line. \<exists>r. select i line = Inr r \<Longrightarrow>
   \<forall>l \<in> set ls. str_in ''br i1'' l \<longrightarrow> length (str_split l) > 6 \<Longrightarrow>
     \<exists>st'. inject_outer select i ls st = Inr st'"
  "\<forall>i line. \<exists>r. select i line = Inr r \<Longrightarrow>
   \<forall>l \<in> set ls. str_in ''br i1'' l \<longrightarrow> length (str_split l) > 6 \<Longrightarrow>
     \<exists>st'. inject_inner select info vreg i ls st = Inr st'"
proof (induction select i ls st and select info vreg i ls st
       rule: inject_outer_inject_inner.induct)
  case (1 select i st)
  then show ?case by simp
next
  case (2 select i line rest st)
  have r: "\<forall>l \<in> set rest. str_in ''br i1'' l \<longrightarrow> length (str_split l) > 6"
    using 2(5) by simp
  show ?case
  proof (cases "str_in ''target triple'' line \<and> \<not> added_abort st")
    case True
    from 2(1)[OF True 2(4) r] True show ?thesis by simp
  next
    case False
    obtain sel where s: "select i line = Inr sel" using 2(4) by blast
    show ?thesis
    proof (cases sel)
      case None
      from 2(2)[OF False s None 2(4) r] False s None show ?thesis by auto
    next
      case (Some info)
      from 2(3)[OF False s Some 2(4) r] False s Some show ?thesis by auto
    qed
  qed
next
  case (3 select info vreg i st)
  then show ?case by simp
next
  case (4 select info vreg i line rest st)
  have r: "\<forall>l \<in> set rest. str_in ''br i1'' l \<longrightarrow> length (str_split l) > 6"
    using 4(4) by simp
  show ?case
  proof (cases "consumes (result info) line")
    case True
    then have len: "\<not> length (str_split line) \<le> 6"
      using 4(4) by (simp add: consumes_def)
    from 4(1)[OF True refl len 4(3) r] True len show ?thesis by (simp add: Let_def)
  next
    case False
    from 4(2)[OF False 4(3) r] False show ?thesis by simp
  qed
qed

lemma process_lines_returns:
  assumes "\<forall>l \<in> set lines. str_in ''br i1'' l \<longrightarrow> length (str_split l) > 6"
    and "unvisited (build_block_map lines) {} < resolver_frames"
  shows "\<exists>st. process_lines lines threshold = Inr st"
proof -
  obtain cs ps where "scan lines threshold = Inr (cs, ps)"
    using scan_loop_returns[OF assms, of threshold 0 lines "[]" "[]"]
    by (auto simp: scan_def)
  moreover have "\<exists>st. inject_outer (select_ranked ps) 0 lines init_state = Inr st"
    using inject_returns(1)[of "select_ranked ps" lines 0 init_state] assms(1)
      select_ranked_returns by blast
  ultimately show ?thesis
    by (auto simp: process_lines_def)
qed

lemma process_lines_unranked_returns:
  assumes "\<forall>l \<in> set lines. str_in ''br i1'' l \<longrightarrow> length (str_split l) > 6"
  shows "\<exists>st. process_lines_unranked lines = Inr st"
  unfolding process_lines_unranked_def
  using inject_returns(1)[of select_all lines 0 init_state] assms
  by (simp add: select_all_def)

end
